theory Spec2Isabelle
  imports Complex_Main "HOL-Library.Log_Nat"
begin

unbundle bit_operations_syntax

section \<open>Numbers\<close>

text \<open>
  A JavaScript number held in a \<^verbatim>\<open>Float64Array\<close> is an IEEE-754 double. The model keeps
  the four kinds of value a double can be and computes on the finite ones with exact
  real arithmetic: rounding, overflow to infinity, underflow and the sign of zero are
  not represented (zero is taken as \<open>+0\<close>). Every statement below that speaks of a
  computed finite value is therefore a statement about the exact value of the formula
  the code evaluates.
\<close>

datatype f64 = Fin real | PInf | NInf | NaN

fun fneg :: "f64 \<Rightarrow> f64" where
  "fneg (Fin a) = Fin (- a)"
| "fneg PInf = NInf"
| "fneg NInf = PInf"
| "fneg NaN = NaN"

fun fadd :: "f64 \<Rightarrow> f64 \<Rightarrow> f64" where
  "fadd (Fin a) (Fin b) = Fin (a + b)"
| "fadd NaN _ = NaN"
| "fadd _ NaN = NaN"
| "fadd PInf NInf = NaN"
| "fadd NInf PInf = NaN"
| "fadd PInf _ = PInf"
| "fadd _ PInf = PInf"
| "fadd NInf _ = NInf"
| "fadd _ NInf = NInf"

definition fsub :: "f64 \<Rightarrow> f64 \<Rightarrow> f64" where
  "fsub a b = fadd a (fneg b)"

fun fmul :: "f64 \<Rightarrow> f64 \<Rightarrow> f64" where
  "fmul (Fin a) (Fin b) = Fin (a * b)"
| "fmul NaN _ = NaN"
| "fmul _ NaN = NaN"
| "fmul (Fin a) PInf = (if a = 0 then NaN else if 0 < a then PInf else NInf)"
| "fmul (Fin a) NInf = (if a = 0 then NaN else if 0 < a then NInf else PInf)"
| "fmul PInf (Fin b) = (if b = 0 then NaN else if 0 < b then PInf else NInf)"
| "fmul NInf (Fin b) = (if b = 0 then NaN else if 0 < b then NInf else PInf)"
| "fmul PInf PInf = PInf"
| "fmul PInf NInf = NInf"
| "fmul NInf PInf = NInf"
| "fmul NInf NInf = PInf"

fun fdiv :: "f64 \<Rightarrow> f64 \<Rightarrow> f64" where
  "fdiv (Fin a) (Fin b) =
     (if b \<noteq> 0 then Fin (a / b)
      else if a = 0 then NaN else if 0 < a then PInf else NInf)"
| "fdiv NaN _ = NaN"
| "fdiv _ NaN = NaN"
| "fdiv (Fin a) PInf = Fin 0"
| "fdiv (Fin a) NInf = Fin 0"
| "fdiv PInf (Fin b) = (if 0 \<le> b then PInf else NInf)"
| "fdiv NInf (Fin b) = (if 0 \<le> b then NInf else PInf)"
| "fdiv PInf PInf = NaN"
| "fdiv PInf NInf = NaN"
| "fdiv NInf PInf = NaN"
| "fdiv NInf NInf = NaN"

text \<open>The comparison \<^verbatim>\<open>a > b\<close>: false as soon as one side is NaN.\<close>

fun fgt :: "f64 \<Rightarrow> f64 \<Rightarrow> bool" where
  "fgt (Fin a) (Fin b) = (b < a)"
| "fgt NaN _ = False"
| "fgt _ NaN = False"
| "fgt PInf PInf = False"
| "fgt PInf _ = True"
| "fgt _ PInf = False"
| "fgt NInf _ = False"
| "fgt _ NInf = True"

text \<open>The comparison \<^verbatim>\<open>a <= b\<close>.\<close>

definition fle :: "f64 \<Rightarrow> f64 \<Rightarrow> bool" where
  "fle a b \<longleftrightarrow> a \<noteq> NaN \<and> b \<noteq> NaN \<and> \<not> fgt a b"

text \<open>\<^verbatim>\<open>Math.hypot\<close>: an infinite argument wins over a NaN one.\<close>

fun hypot :: "f64 \<Rightarrow> f64 \<Rightarrow> f64" where
  "hypot (Fin a) (Fin b) = Fin (sqrt (a * a + b * b))"
| "hypot PInf _ = PInf"
| "hypot _ PInf = PInf"
| "hypot NInf _ = PInf"
| "hypot _ NInf = PInf"
| "hypot NaN _ = NaN"
| "hypot _ NaN = NaN"

text \<open>\<^verbatim>\<open>Math.atan2 (y, x)\<close>, with \<open>atan2 (0, 0) = 0\<close>.\<close>

fun atan2 :: "f64 \<Rightarrow> f64 \<Rightarrow> f64" where
  "atan2 (Fin y) (Fin x) =
     Fin (if 0 < x then arctan (y / x)
          else if x < 0 \<and> 0 \<le> y then arctan (y / x) + pi
          else if x < 0 then arctan (y / x) - pi
          else if 0 < y then pi / 2
          else if y < 0 then - pi / 2
          else 0)"
| "atan2 NaN _ = NaN"
| "atan2 _ NaN = NaN"
| "atan2 (Fin y) PInf = Fin 0"
| "atan2 (Fin y) NInf = Fin (if 0 \<le> y then pi else - pi)"
| "atan2 PInf (Fin x) = Fin (pi / 2)"
| "atan2 NInf (Fin x) = Fin (- pi / 2)"
| "atan2 PInf PInf = Fin (pi / 4)"
| "atan2 PInf NInf = Fin (3 * pi / 4)"
| "atan2 NInf PInf = Fin (- pi / 4)"
| "atan2 NInf NInf = Fin (- 3 * pi / 4)"

fun fcos :: "f64 \<Rightarrow> f64" where
  "fcos (Fin a) = Fin (cos a)"
| "fcos _ = NaN"

fun fsin :: "f64 \<Rightarrow> f64" where
  "fsin (Fin a) = Fin (sin a)"
| "fsin _ = NaN"

text \<open>An integer-valued JavaScript number used in floating-point arithmetic.\<close>

definition of_i :: "int \<Rightarrow> f64" where
  "of_i k = Fin (of_int k)"

text \<open>
  \<^verbatim>\<open>ToInt32\<close>, which every bitwise operator applies to its operands and to its result:
  the integer is reduced modulo \<open>2^32\<close> into \<open>[-2^31, 2^31)\<close>.
\<close>

definition to_int32 :: "int \<Rightarrow> int" where
  "to_int32 k = (k + 2 ^ 31) mod 2 ^ 32 - 2 ^ 31"

text \<open>
  The bitwise operators on integer-valued numbers: \<^verbatim>\<open>a << s\<close>, \<^verbatim>\<open>a >> s\<close> (the shift count
  is taken modulo 32), \<^verbatim>\<open>a & b\<close> and \<^verbatim>\<open>a | b\<close>.
\<close>

definition shl :: "int \<Rightarrow> int \<Rightarrow> int" where
  "shl a s = to_int32 (push_bit (nat (s mod 32)) (to_int32 a))"

definition shr :: "int \<Rightarrow> int \<Rightarrow> int" where
  "shr a s = drop_bit (nat (s mod 32)) (to_int32 a)"

definition band :: "int \<Rightarrow> int \<Rightarrow> int" where
  "band a b = to_int32 a AND to_int32 b"

definition bor :: "int \<Rightarrow> int \<Rightarrow> int" where
  "bor a b = to_int32 a OR to_int32 b"

text \<open>
  \<^verbatim>\<open>Math.round(Math.log2(n))\<close> for an integer \<open>n > 0\<close>: the logarithm rounds up exactly
  when \<open>n \<ge> 2 ^ (l + 1/2)\<close>, that is \<open>n\<^sup>2 \<ge> 2 ^ (2 l + 1)\<close>, for \<open>l\<close> its integer part.
  (The callers reach it with \<open>n > 0\<close> only.)
\<close>

definition round_log2 :: "int \<Rightarrow> nat" where
  "round_log2 n = (let l = floorlog 2 (nat n) - 1 in if 2 ^ (2 * l + 1) \<le> n * n then l + 1 else l)"

section \<open>Typed arrays and Complex Buffers\<close>

text \<open>
  Arrays are objects: two names may denote the same array, and the write-into operations
  are specified for that case. The store maps a reference to the array's contents;
  \<open>fresh\<close> is the next unused reference.
\<close>

type_synonym ref = nat

record heap =
  arrays :: "ref \<Rightarrow> f64 list"
  fresh :: ref

record ComplexArray =
  real_arr :: ref
  imag_arr :: ref

datatype error = InvalidSize | InvalidLength | InvalidArgument | UnknownWindow | RangeError

text \<open>
  \<open>rd\<close> is the element read \<^verbatim>\<open>arr[i]\<close>: \<^verbatim>\<open>undefined\<close> (here \<open>None\<close>) out of range.
  \<open>num\<close> is the use of that value as an operand of arithmetic (the postfix \<^verbatim>\<open>!\<close> of
  TypeScript is erased at run time): \<^verbatim>\<open>undefined\<close> becomes NaN. \<open>or0\<close> is \<^verbatim>\<open>arr[i] ?? 0\<close>.
  \<open>el\<close> is the read \<^verbatim>\<open>arr[i]!\<close> inside an arithmetic expression.
  \<open>wr\<close> is the element write \<^verbatim>\<open>arr[i] = v\<close> on a typed array: out of range it is dropped.
\<close>

definition rd :: "heap \<Rightarrow> ref \<Rightarrow> nat \<Rightarrow> f64 option" where
  "rd h r i = (if i < length (arrays h r) then Some (arrays h r ! i) else None)"

definition num :: "f64 option \<Rightarrow> f64" where
  "num v = (case v of None \<Rightarrow> NaN | Some x \<Rightarrow> x)"

definition or0 :: "f64 option \<Rightarrow> f64" where
  "or0 v = (case v of None \<Rightarrow> Fin 0 | Some x \<Rightarrow> x)"

definition el :: "heap \<Rightarrow> ref \<Rightarrow> nat \<Rightarrow> f64" where
  "el h r i = num (rd h r i)"

definition wr :: "heap \<Rightarrow> ref \<Rightarrow> nat \<Rightarrow> f64 \<Rightarrow> heap" where
  "wr h r i v = h\<lparr>arrays := (arrays h)(r := (arrays h r)[i := v])\<rparr>"

text \<open>\<^verbatim>\<open>new Float64Array(n)\<close>, and \<^verbatim>\<open>new Float64Array(xs)\<close> copying a sequence.\<close>

definition newF64_of :: "f64 list \<Rightarrow> heap \<Rightarrow> ref \<times> heap" where
  "newF64_of xs h =
     (fresh h, h\<lparr>arrays := (arrays h)(fresh h := xs), fresh := Suc (fresh h)\<rparr>)"

definition newF64 :: "nat \<Rightarrow> heap \<Rightarrow> ref \<times> heap" where
  "newF64 n h = newF64_of (replicate n (Fin 0)) h"

section \<open>Complex arithmetic on split buffers\<close>

definition len :: "heap \<Rightarrow> ComplexArray \<Rightarrow> nat" where
  "len h a = length (arrays h (real_arr a))"

definition alloc :: "nat \<Rightarrow> heap \<Rightarrow> ComplexArray \<times> heap" where
  "alloc n h =
     (let (r, h1) = newF64 n h; (i, h2) = newF64 n h1
      in (\<lparr>real_arr = r, imag_arr = i\<rparr>, h2))"

text \<open>
  Each write-into operation is the source's loop over \<open>i < len a\<close>, the reads and writes
  of one iteration in the source's order. None of them raises.
\<close>

definition scaleInto_step :: "ComplexArray \<Rightarrow> f64 \<Rightarrow> ComplexArray \<Rightarrow> nat \<Rightarrow> heap \<Rightarrow> heap" where
  "scaleInto_step a s out i h =
     (let h1 = wr h (real_arr out) i (fmul (num (rd h (real_arr a) i)) s)
      in wr h1 (imag_arr out) i (fmul (num (rd h1 (imag_arr a) i)) s))"

definition scaleInto ::
  "ComplexArray \<Rightarrow> f64 \<Rightarrow> ComplexArray \<Rightarrow> heap \<Rightarrow> (error + ComplexArray) \<times> heap" where
  "scaleInto a s out h = (Inr out, fold (scaleInto_step a s out) [0..<len h a] h)"

definition scale :: "ComplexArray \<Rightarrow> f64 \<Rightarrow> heap \<Rightarrow> (error + ComplexArray) \<times> heap" where
  "scale a s h = (let (out, h1) = alloc (len h a) h in scaleInto a s out h1)"

definition addInto_step :: "ComplexArray \<Rightarrow> ComplexArray \<Rightarrow> ComplexArray \<Rightarrow> nat \<Rightarrow> heap \<Rightarrow> heap" where
  "addInto_step a b out i h =
     (let h1 = wr h (real_arr out) i
                 (fadd (num (rd h (real_arr a) i)) (num (rd h (real_arr b) i)))
      in wr h1 (imag_arr out) i
                 (fadd (num (rd h1 (imag_arr a) i)) (num (rd h1 (imag_arr b) i))))"

definition addInto ::
  "ComplexArray \<Rightarrow> ComplexArray \<Rightarrow> ComplexArray \<Rightarrow> heap \<Rightarrow> (error + ComplexArray) \<times> heap" where
  "addInto a b out h = (Inr out, fold (addInto_step a b out) [0..<len h a] h)"

definition add :: "ComplexArray \<Rightarrow> ComplexArray \<Rightarrow> heap \<Rightarrow> (error + ComplexArray) \<times> heap" where
  "add a b h = (let (out, h1) = alloc (len h a) h in addInto a b out h1)"

definition subInto_step :: "ComplexArray \<Rightarrow> ComplexArray \<Rightarrow> ComplexArray \<Rightarrow> nat \<Rightarrow> heap \<Rightarrow> heap" where
  "subInto_step a b out i h =
     (let h1 = wr h (real_arr out) i
                 (fsub (num (rd h (real_arr a) i)) (num (rd h (real_arr b) i)))
      in wr h1 (imag_arr out) i
                 (fsub (num (rd h1 (imag_arr a) i)) (num (rd h1 (imag_arr b) i))))"

definition subInto ::
  "ComplexArray \<Rightarrow> ComplexArray \<Rightarrow> ComplexArray \<Rightarrow> heap \<Rightarrow> (error + ComplexArray) \<times> heap" where
  "subInto a b out h = (Inr out, fold (subInto_step a b out) [0..<len h a] h)"

definition sub :: "ComplexArray \<Rightarrow> ComplexArray \<Rightarrow> heap \<Rightarrow> (error + ComplexArray) \<times> heap" where
  "sub a b h = (let (out, h1) = alloc (len h a) h in subInto a b out h1)"

definition mulInto_step :: "ComplexArray \<Rightarrow> ComplexArray \<Rightarrow> ComplexArray \<Rightarrow> nat \<Rightarrow> heap \<Rightarrow> heap" where
  "mulInto_step a b out i h =
     (let ar = num (rd h (real_arr a) i);
          ai = num (rd h (imag_arr a) i);
          br = num (rd h (real_arr b) i);
          bi = num (rd h (imag_arr b) i);
          h1 = wr h (real_arr out) i (fsub (fmul ar br) (fmul ai bi))
      in wr h1 (imag_arr out) i (fadd (fmul ar bi) (fmul ai br)))"

definition mulInto ::
  "ComplexArray \<Rightarrow> ComplexArray \<Rightarrow> ComplexArray \<Rightarrow> heap \<Rightarrow> (error + ComplexArray) \<times> heap" where
  "mulInto a b out h = (Inr out, fold (mulInto_step a b out) [0..<len h a] h)"

definition mul :: "ComplexArray \<Rightarrow> ComplexArray \<Rightarrow> heap \<Rightarrow> (error + ComplexArray) \<times> heap" where
  "mul a b h = (let (out, h1) = alloc (len h a) h in mulInto a b out h1)"

definition mulScalarInto_step :: "ComplexArray \<Rightarrow> f64 \<Rightarrow> f64 \<Rightarrow> ComplexArray \<Rightarrow> nat \<Rightarrow> heap \<Rightarrow> heap" where
  "mulScalarInto_step a re im out i h =
     (let ar = num (rd h (real_arr a) i);
          ai = num (rd h (imag_arr a) i);
          h1 = wr h (real_arr out) i (fsub (fmul ar re) (fmul ai im))
      in wr h1 (imag_arr out) i (fadd (fmul ar im) (fmul ai re)))"

definition mulScalarInto ::
  "ComplexArray \<Rightarrow> f64 \<Rightarrow> f64 \<Rightarrow> ComplexArray \<Rightarrow> heap \<Rightarrow> (error + ComplexArray) \<times> heap" where
  "mulScalarInto a re im out h =
     (Inr out, fold (mulScalarInto_step a re im out) [0..<len h a] h)"

definition mulScalar :: "ComplexArray \<Rightarrow> f64 \<Rightarrow> f64 \<Rightarrow> heap \<Rightarrow> (error + ComplexArray) \<times> heap" where
  "mulScalar a re im h = (let (out, h1) = alloc (len h a) h in mulScalarInto a re im out h1)"

definition divInto_step :: "ComplexArray \<Rightarrow> ComplexArray \<Rightarrow> ComplexArray \<Rightarrow> nat \<Rightarrow> heap \<Rightarrow> heap" where
  "divInto_step a b out i h =
     (let ar = num (rd h (real_arr a) i);
          ai = num (rd h (imag_arr a) i);
          br = num (rd h (real_arr b) i);
          bi = num (rd h (imag_arr b) i);
          denom = fadd (fmul br br) (fmul bi bi);
          h1 = wr h (real_arr out) i (fdiv (fadd (fmul ar br) (fmul ai bi)) denom)
      in wr h1 (imag_arr out) i (fdiv (fsub (fmul ai br) (fmul ar bi)) denom))"

definition divInto ::
  "ComplexArray \<Rightarrow> ComplexArray \<Rightarrow> ComplexArray \<Rightarrow> heap \<Rightarrow> (error + ComplexArray) \<times> heap" where
  "divInto a b out h = (Inr out, fold (divInto_step a b out) [0..<len h a] h)"

definition div_c :: "ComplexArray \<Rightarrow> ComplexArray \<Rightarrow> heap \<Rightarrow> (error + ComplexArray) \<times> heap" where
  "div_c a b h = (let (out, h1) = alloc (len h a) h in divInto a b out h1)"

definition divScalarInto ::
  "ComplexArray \<Rightarrow> f64 \<Rightarrow> f64 \<Rightarrow> ComplexArray \<Rightarrow> heap \<Rightarrow> (error + ComplexArray) \<times> heap" where
  "divScalarInto a re im out h =
     (let denom = fadd (fmul re re) (fmul im im);
          invRe = fdiv re denom;
          invIm = fdiv (fneg im) denom
      in mulScalarInto a invRe invIm out h)"

definition divScalar :: "ComplexArray \<Rightarrow> f64 \<Rightarrow> f64 \<Rightarrow> heap \<Rightarrow> (error + ComplexArray) \<times> heap" where
  "divScalar a re im h = (let (out, h1) = alloc (len h a) h in divScalarInto a re im out h1)"

definition conjInto_step :: "ComplexArray \<Rightarrow> ComplexArray \<Rightarrow> nat \<Rightarrow> heap \<Rightarrow> heap" where
  "conjInto_step a out i h =
     (let h1 = wr h (real_arr out) i (num (rd h (real_arr a) i))
      in wr h1 (imag_arr out) i (fneg (num (rd h1 (imag_arr a) i))))"

definition conjInto ::
  "ComplexArray \<Rightarrow> ComplexArray \<Rightarrow> heap \<Rightarrow> (error + ComplexArray) \<times> heap" where
  "conjInto a out h = (Inr out, fold (conjInto_step a out) [0..<len h a] h)"

definition conj_c :: "ComplexArray \<Rightarrow> heap \<Rightarrow> (error + ComplexArray) \<times> heap" where
  "conj_c a h = (let (out, h1) = alloc (len h a) h in conjInto a out h1)"

text \<open>
  \<^verbatim>\<open>target.set(source)\<close> of a typed array: a RangeError when the source is longer than
  the target, else the source's elements replace the first elements of the target.
\<close>

definition set_arr :: "ref \<Rightarrow> ref \<Rightarrow> heap \<Rightarrow> error + heap" where
  "set_arr tgt src h =
     (let xs = arrays h src; ys = arrays h tgt
      in if length ys < length xs then Inl RangeError
         else Inr (h\<lparr>arrays := (arrays h)(tgt := xs @ drop (length xs) ys)\<rparr>))"

definition copy :: "ComplexArray \<Rightarrow> heap \<Rightarrow> (error + ComplexArray) \<times> heap" where
  "copy a h =
     (let (r, h1) = newF64_of (arrays h (real_arr a)) h;
          (i, h2) = newF64_of (arrays h1 (imag_arr a)) h1
      in (Inr \<lparr>real_arr = r, imag_arr = i\<rparr>, h2))"

definition copyInto :: "ComplexArray \<Rightarrow> ComplexArray \<Rightarrow> heap \<Rightarrow> (error + ComplexArray) \<times> heap" where
  "copyInto a out h =
     (case set_arr (real_arr out) (real_arr a) h of
        Inl e \<Rightarrow> (Inl e, h)
      | Inr h1 \<Rightarrow>
          (case set_arr (imag_arr out) (imag_arr a) h1 of
             Inl e \<Rightarrow> (Inl e, h1)
           | Inr h2 \<Rightarrow> (Inr out, h2)))"


section \<open>The radix-2 kernel\<close>

definition createComplexArray :: "int \<Rightarrow> f64 \<Rightarrow> heap \<Rightarrow> ComplexArray \<times> heap" where
  "createComplexArray sz fill h =
     (let v = (if fill \<noteq> Fin 0 then fill else Fin 0);
          (r, h1) = newF64_of (replicate (nat sz) v) h;
          (i, h2) = newF64_of (replicate (nat sz) v) h1
      in (\<lparr>real_arr = r, imag_arr = i\<rparr>, h2))"

definition isPowerOfTwo :: "int \<Rightarrow> bool" where
  "isPowerOfTwo n \<longleftrightarrow> 0 < n \<and> band n (n - 1) = 0"

text \<open>
  The loop of \<^verbatim>\<open>nextPowerOfTwo\<close> shifts a 32-bit integer: from \<open>2^30\<close> it goes to \<open>-2^31\<close>
  and then to \<open>0\<close>, where it stays. It is therefore a partial function.
\<close>

partial_function (option) nextPow_loop :: "int \<Rightarrow> int \<Rightarrow> int option" where
  "nextPow_loop p n = (if p < n then nextPow_loop (shl p 1) n else Some p)"

definition nextPowerOfTwo :: "int \<Rightarrow> int option" where
  "nextPowerOfTwo n = (if n \<le> 1 then Some 1 else nextPow_loop 1 n)"

text \<open>The inner loop of \<^verbatim>\<open>buildBitReverse\<close>, \<open>b\<close> iterations left to run.\<close>

fun rev_loop :: "nat \<Rightarrow> int \<Rightarrow> int \<Rightarrow> int" where
  "rev_loop 0 x y = y"
| "rev_loop (Suc b) x y = rev_loop b (shr x 1) (bor (shl y 1) (band x 1))"

text \<open>The store into the \<^verbatim>\<open>Uint32Array\<close> reduces the value modulo \<open>2^32\<close>.\<close>

definition buildBitReverse :: "int \<Rightarrow> nat list" where
  "buildBitReverse sz =
     (let bits = round_log2 sz
      in map (\<lambda>i. nat (rev_loop bits (int i) 0 mod 2 ^ 32)) [0..<nat sz])"

record TwiddleTable =
  cos_t :: "f64 list"
  sin_t :: "f64 list"

definition twiddle_angle :: "nat \<Rightarrow> int \<Rightarrow> f64" where
  "twiddle_angle k m = fdiv (fmul (fmul (of_i (- 2)) (Fin pi)) (of_i (int k))) (of_i m)"

text \<open>
  One iteration of the stage loop of \<^verbatim>\<open>buildTwiddles\<close>. \<^verbatim>\<open>new Float64Array(half)\<close> raises
  a RangeError for a negative length, which \<^verbatim>\<open>1 << stage\<close> produces at stage 31.
\<close>

definition twiddle_table :: "int \<Rightarrow> error + TwiddleTable" where
  "twiddle_table stage =
     (let m = shl 1 stage; half = shr m 1
      in if half < 0 then Inl RangeError
         else Inr \<lparr>cos_t = map (\<lambda>k. fcos (twiddle_angle k m)) [0..<nat half],
                   sin_t = map (\<lambda>k. fsin (twiddle_angle k m)) [0..<nat half]\<rparr>)"

fun twiddle_stages :: "nat list \<Rightarrow> error + TwiddleTable list" where
  "twiddle_stages [] = Inr []"
| "twiddle_stages (s # ss) =
     (case twiddle_table (int s) of
        Inl e \<Rightarrow> Inl e
      | Inr t \<Rightarrow> (case twiddle_stages ss of Inl e \<Rightarrow> Inl e | Inr ts \<Rightarrow> Inr (t # ts)))"

definition buildTwiddles :: "int \<Rightarrow> error + TwiddleTable list" where
  "buildTwiddles sz = twiddle_stages [1..<Suc (round_log2 sz)]"

record Radix2Fft =
  psize :: int
  bitReverse :: "nat list"
  twiddles :: "TwiddleTable list"

definition new_Radix2Fft :: "int \<Rightarrow> error + Radix2Fft" where
  "new_Radix2Fft sz =
     (if \<not> isPowerOfTwo sz then Inl InvalidSize
      else case buildTwiddles sz of
             Inl e \<Rightarrow> Inl e
           | Inr tw \<Rightarrow> Inr \<lparr>psize = sz, bitReverse = buildBitReverse sz, twiddles = tw\<rparr>)"

definition nth_opt :: "'a list \<Rightarrow> nat \<Rightarrow> 'a option" where
  "nth_opt xs i = (if i < length xs then Some (xs ! i) else None)"

text \<open>
  The scatter loop of \<^verbatim>\<open>transform\<close>. An index read beyond the table is \<^verbatim>\<open>undefined\<close>, and a
  write at \<^verbatim>\<open>undefined\<close> touches no element.
\<close>

definition scatter_step :: "Radix2Fft \<Rightarrow> ref \<Rightarrow> ref option \<Rightarrow> ref \<Rightarrow> ref \<Rightarrow> nat \<Rightarrow> heap \<Rightarrow> heap" where
  "scatter_step P inR inI oR oI i h =
     (case nth_opt (bitReverse P) i of
        None \<Rightarrow> h
      | Some j \<Rightarrow>
          (let h1 = wr h oR j (or0 (rd h inR i))
           in wr h1 oI j (case inI of None \<Rightarrow> Fin 0 | Some r \<Rightarrow> or0 (rd h1 r i))))"

text \<open>One butterfly: the four values are computed before the four writes.\<close>

definition butterfly :: "TwiddleTable \<Rightarrow> f64 \<Rightarrow> ref \<Rightarrow> ref \<Rightarrow> int \<Rightarrow> int \<Rightarrow> nat \<Rightarrow> heap \<Rightarrow> heap" where
  "butterfly t sinSign oR oI half k j h =
     (let c = num (nth_opt (cos_t t) j);
          s = num (nth_opt (sin_t t) j);
          hi = nat (k + int j + half);
          lo = nat (k + int j);
          tReal = fsub (fmul c (el h oR hi)) (fmul (fmul sinSign s) (el h oI hi));
          tImag = fadd (fmul (fmul sinSign s) (el h oR hi)) (fmul c (el h oI hi));
          uReal = el h oR lo;
          uImag = el h oI lo;
          h1 = wr h oR lo (fadd uReal tReal);
          h2 = wr h1 oI lo (fadd uImag tImag);
          h3 = wr h2 oR hi (fsub uReal tReal)
      in wr h3 oI hi (fsub uImag tImag))"

text \<open>
  The loop \<^verbatim>\<open>for (k = 0; k < size; k += m)\<close> ends only when \<open>m\<close> is positive; the model
  returns \<open>None\<close> when it does not end.
\<close>

partial_function (option) block_loop :: "int \<Rightarrow> int \<Rightarrow> (int \<Rightarrow> heap \<Rightarrow> heap) \<Rightarrow> int \<Rightarrow> heap \<Rightarrow> heap option" where
  "block_loop sz m body k h = (if k < sz then block_loop sz m body (k + m) (body k h) else Some h)"

definition stage_pass :: "int \<Rightarrow> bool \<Rightarrow> ref \<Rightarrow> ref \<Rightarrow> nat \<Rightarrow> TwiddleTable \<Rightarrow> heap \<Rightarrow> heap option" where
  "stage_pass sz isInv oR oI stage t h =
     (let m = shl 1 (int stage + 1);
          half = shr m 1;
          sinSign = (if isInv then of_i (- 1) else of_i 1)
      in block_loop sz m (\<lambda>k. fold (butterfly t sinSign oR oI half k) [0..<nat half]) 0 h)"

fun stage_loop :: "int \<Rightarrow> bool \<Rightarrow> ref \<Rightarrow> ref \<Rightarrow> nat \<Rightarrow> TwiddleTable list \<Rightarrow> heap \<Rightarrow> heap option" where
  "stage_loop sz isInv oR oI stage [] h = Some h"
| "stage_loop sz isInv oR oI stage (t # ts) h =
     (case stage_pass sz isInv oR oI stage t h of
        None \<Rightarrow> None
      | Some h' \<Rightarrow> stage_loop sz isInv oR oI (Suc stage) ts h')"

definition inverse_scale_step :: "f64 \<Rightarrow> ref \<Rightarrow> ref \<Rightarrow> nat \<Rightarrow> heap \<Rightarrow> heap" where
  "inverse_scale_step sc oR oI i h =
     (let h1 = wr h oR i (fmul (el h oR i) sc)
      in wr h1 oI i (fmul (el h1 oI i) sc))"

text \<open>
  \<^verbatim>\<open>transform\<close>: the two length checks and the choice of the result buffer, then (in
  \<open>transform_into\<close>) the scatter, the stages and the final scaling of the inverse. The
  outer \<open>option\<close> is \<open>None\<close> when a loop does not end.
\<close>

definition transform_into ::
  "Radix2Fft \<Rightarrow> ref \<Rightarrow> ref option \<Rightarrow> ComplexArray \<Rightarrow> bool \<Rightarrow> heap \<Rightarrow> heap option" where
  "transform_into P inputReal inputImag result isInv h0 =
     (let outReal = real_arr result;
          outImag = imag_arr result;
          h1 = fold (scatter_step P inputReal inputImag outReal outImag) [0..<nat (psize P)] h0
      in case stage_loop (psize P) isInv outReal outImag 0 (twiddles P) h1 of
           None \<Rightarrow> None
         | Some h2 \<Rightarrow>
             Some (if isInv
                   then fold (inverse_scale_step (fdiv (of_i 1) (of_i (psize P))) outReal outImag)
                          [0..<nat (psize P)] h2
                   else h2))"

definition transform ::
  "Radix2Fft \<Rightarrow> ref \<Rightarrow> ref option \<Rightarrow> ComplexArray option \<Rightarrow> bool \<Rightarrow> heap \<Rightarrow>
   ((error + ComplexArray) \<times> heap) option" where
  "transform P inputReal inputImag out isInv h =
     (if int (length (arrays h inputReal)) \<noteq> psize P then Some (Inl InvalidLength, h)
      else if (case inputImag of None \<Rightarrow> False
               | Some r \<Rightarrow> int (length (arrays h r)) \<noteq> psize P) then Some (Inl InvalidLength, h)
      else
        let (result, h0) = (case out of Some c \<Rightarrow> (c, h)
                            | None \<Rightarrow> createComplexArray (psize P) (Fin 0) h)
        in case transform_into P inputReal inputImag result isInv h0 of
             None \<Rightarrow> None
           | Some h3 \<Rightarrow> Some (Inr result, h3))"

definition forward ::
  "Radix2Fft \<Rightarrow> ref \<Rightarrow> ComplexArray option \<Rightarrow> heap \<Rightarrow> ((error + ComplexArray) \<times> heap) option" where
  "forward P input out h = transform P input None out False h"

definition forwardComplex ::
  "Radix2Fft \<Rightarrow> ComplexArray \<Rightarrow> ComplexArray option \<Rightarrow> heap \<Rightarrow> ((error + ComplexArray) \<times> heap) option" where
  "forwardComplex P input out h = transform P (real_arr input) (Some (imag_arr input)) out False h"

definition inverse_fft ::
  "Radix2Fft \<Rightarrow> ComplexArray \<Rightarrow> ComplexArray option \<Rightarrow> heap \<Rightarrow> ((error + ComplexArray) \<times> heap) option" where
  "inverse_fft P input out h = transform P (real_arr input) (Some (imag_arr input)) out True h"


section \<open>Windows and projections\<close>

datatype WindowType = Rect | Hann | Hamming | Blackman

datatype FftSides = One | Two

definition window_phase :: "nat \<Rightarrow> int \<Rightarrow> f64" where
  "window_phase i sz = fdiv (fmul (fmul (of_i 2) (Fin pi)) (of_i (int i))) (of_i (sz - 1))"

definition createWindow :: "WindowType \<Rightarrow> int \<Rightarrow> error + f64 list" where
  "createWindow ty sz =
     (if sz \<le> 0 then Inl InvalidSize
      else if sz = 1 then Inr [Fin 1]
      else Inr (case ty of
          Rect \<Rightarrow> replicate (nat sz) (Fin 1)
        | Hann \<Rightarrow>
            map (\<lambda>i. fmul (Fin 0.5) (fsub (Fin 1) (fcos (window_phase i sz)))) [0..<nat sz]
        | Hamming \<Rightarrow>
            map (\<lambda>i. fsub (Fin 0.54) (fmul (Fin 0.46) (fcos (window_phase i sz)))) [0..<nat sz]
        | Blackman \<Rightarrow>
            map (\<lambda>i. let f = window_phase i sz
                      in fadd (fsub (Fin 0.42) (fmul (Fin 0.5) (fcos f)))
                              (fmul (Fin 0.08) (fcos (fmul (of_i 2) f)))) [0..<nat sz]))"

definition applyWindow_step :: "ref \<Rightarrow> ref \<Rightarrow> ref \<Rightarrow> nat \<Rightarrow> heap \<Rightarrow> heap" where
  "applyWindow_step input window result i h =
     wr h result i (fmul (or0 (rd h input i)) (or0 (rd h window i)))"

definition applyWindow :: "ref \<Rightarrow> ref \<Rightarrow> ref option \<Rightarrow> heap \<Rightarrow> (error + ref) \<times> heap" where
  "applyWindow input window out h =
     (if length (arrays h input) \<noteq> length (arrays h window) then (Inl InvalidLength, h)
      else
        let (result, h0) = (case out of Some r \<Rightarrow> (r, h)
                            | None \<Rightarrow> newF64 (length (arrays h input)) h)
        in (Inr result,
            fold (applyWindow_step input window result) [0..<length (arrays h input)] h0))"

text \<open>The wrapper class \<^verbatim>\<open>FFT\<close> repeats the size check and delegates to the kernel.\<close>

definition new_FFT :: "int \<Rightarrow> error + Radix2Fft" where
  "new_FFT sz = (if \<not> isPowerOfTwo sz then Inl InvalidSize else new_Radix2Fft sz)"

text \<open>\<^verbatim>\<open>magnitude\<close> and \<^verbatim>\<open>phase\<close>, called without an output buffer: they fill a new array.\<close>

definition magnitude :: "heap \<Rightarrow> ComplexArray \<Rightarrow> f64 list" where
  "magnitude h input =
     map (\<lambda>i. hypot (or0 (rd h (real_arr input) i)) (or0 (rd h (imag_arr input) i)))
       [0..<length (arrays h (real_arr input))]"

definition phase :: "heap \<Rightarrow> ComplexArray \<Rightarrow> f64 list" where
  "phase h input =
     map (\<lambda>i. atan2 (or0 (rd h (imag_arr input) i)) (or0 (rd h (real_arr input) i)))
       [0..<length (arrays h (real_arr input))]"

definition binFrequencies :: "int \<Rightarrow> f64 \<Rightarrow> FftSides \<Rightarrow> error + f64 list" where
  "binFrequencies sz sampleRate sides =
     (if sz \<le> 0 then Inl InvalidArgument
      else if fle sampleRate (Fin 0) then Inl InvalidArgument
      else
        let binCount = (if sides = One then sz div 2 + 1 else sz);
            scale = fdiv sampleRate (of_i sz)
        in Inr (map (\<lambda>i. fmul (of_i (int i)) scale) [0..<nat binCount]))"

section \<open>The spectrum pipeline\<close>

definition buildFrame :: "f64 list \<Rightarrow> int \<Rightarrow> f64 list" where
  "buildFrame input sz =
     (let limit = min sz (int (length input))
      in fold (\<lambda>i frame. frame[i := or0 (nth_opt input i)]) [0..<nat limit]
           (replicate (nat sz) (Fin 0)))"

definition scaleAmplitudeOneSided :: "f64 list \<Rightarrow> int \<Rightarrow> f64 list" where
  "scaleAmplitudeOneSided magnitudes sz =
     (let binCount = sz div 2 + 1;
          nyquist = (if sz mod 2 = 0 then sz div 2 else - 1)
      in map (\<lambda>k. let mag = or0 (nth_opt magnitudes k)
                   in if k = 0 \<or> int k = nyquist then fdiv mag (of_i sz)
                      else fdiv (fmul (of_i 2) mag) (of_i sz)) [0..<nat binCount])"

definition scaleAmplitudeTwoSided :: "f64 list \<Rightarrow> int \<Rightarrow> f64 list" where
  "scaleAmplitudeTwoSided magnitudes sz =
     map (\<lambda>k. fdiv (or0 (nth_opt magnitudes k)) (of_i sz)) [0..<nat sz]"

record peak_state =
  maxIndex :: nat
  maxValue :: f64
  hasNonDc :: bool
  nonDcIndex :: nat
  nonDcValue :: f64

definition findPeak_step :: "f64 list \<Rightarrow> nat \<Rightarrow> peak_state \<Rightarrow> peak_state" where
  "findPeak_step amp i st =
     (let v = or0 (nth_opt amp i);
          st1 = (if fgt v (nonDcValue st) then st\<lparr>nonDcValue := v, nonDcIndex := i\<rparr> else st);
          st2 = (if fgt v (Fin 0) then st1\<lparr>hasNonDc := True\<rparr> else st1)
      in if fgt v (maxValue st2) then st2\<lparr>maxValue := v, maxIndex := i\<rparr> else st2)"

definition findPeak_scan :: "f64 list \<Rightarrow> peak_state" where
  "findPeak_scan amp =
     fold (findPeak_step amp) [1..<length amp]
       \<lparr>maxIndex = 0, maxValue = or0 (nth_opt amp 0), hasNonDc = False,
        nonDcIndex = 0, nonDcValue = Fin 0\<rparr>"

record SpectrumPeak =
  pk_index :: nat
  pk_frequency :: f64
  pk_amplitude :: f64
  pk_phase :: f64

definition findPeak :: "f64 list \<Rightarrow> f64 list \<Rightarrow> SpectrumPeak" where
  "findPeak amp freqs =
     (let st = findPeak_scan amp;
          idx = (if hasNonDc st then nonDcIndex st else maxIndex st)
      in \<lparr>pk_index = idx, pk_frequency = or0 (nth_opt freqs idx),
          pk_amplitude = or0 (nth_opt amp idx), pk_phase = Fin 0\<rparr>)"

record SpectrumOptions =
  sampleRate :: "f64 option"
  fftSize :: "int option"
  window :: "WindowType option"
  sides :: "FftSides option"

record SpectrumResult =
  frequencies :: "f64 list"
  amplitude :: "f64 list"
  phase_bins :: "f64 list"
  peak :: SpectrumPeak

definition empty_heap :: heap where
  "empty_heap = \<lparr>arrays = (\<lambda>r. []), fresh = 0\<rparr>"

text \<open>
  \<^verbatim>\<open>spectrum\<close>. The arrays it passes between its steps are its own: they live in a store
  of their own, and the result carries the contents of the arrays it returns. The outer
  \<open>option\<close> is \<open>None\<close> when a loop does not end.
\<close>

definition spectrum :: "f64 list \<Rightarrow> SpectrumOptions \<Rightarrow> (error + SpectrumResult) option" where
  "spectrum samples opts =
     (let sr = (case sampleRate opts of None \<Rightarrow> Fin 1 | Some x \<Rightarrow> x);
          sd = (case sides opts of None \<Rightarrow> One | Some x \<Rightarrow> x);
          wt = (case window opts of None \<Rightarrow> Rect | Some x \<Rightarrow> x)
      in case (case fftSize opts of None \<Rightarrow> nextPowerOfTwo (int (length samples))
               | Some n \<Rightarrow> Some n) of
           None \<Rightarrow> None
         | Some targetSize \<Rightarrow>
            (case new_FFT targetSize of
               Inl e \<Rightarrow> Some (Inl e)
             | Inr fft \<Rightarrow>
                (case createWindow wt targetSize of
                   Inl e \<Rightarrow> Some (Inl e)
                 | Inr win \<Rightarrow>
                    (let (frame_r, h1) = newF64_of (buildFrame samples targetSize) empty_heap;
                         (win_r, h2) = newF64_of win h1
                     in case applyWindow frame_r win_r None h2 of
                          (Inl e, h3) \<Rightarrow> Some (Inl e)
                        | (Inr windowed, h3) \<Rightarrow>
                           (case forward fft windowed None h3 of
                              None \<Rightarrow> None
                            | Some (Inl e, h4) \<Rightarrow> Some (Inl e)
                            | Some (Inr X, h4) \<Rightarrow>
                               (let mag = magnitude h4 X;
                                    ang = phase h4 X;
                                    amp = (if sd = One then scaleAmplitudeOneSided mag targetSize
                                           else scaleAmplitudeTwoSided mag targetSize);
                                    phaseBins = (if sd = One then take (nat (targetSize div 2 + 1)) ang
                                                 else ang)
                                in case binFrequencies targetSize sr sd of
                                     Inl e \<Rightarrow> Some (Inl e)
                                   | Inr freqs \<Rightarrow>
                                      (let pk = findPeak amp freqs
                                       in Some (Inr \<lparr>frequencies = freqs, amplitude = amp,
                                            phase_bins = phaseBins,
                                            peak = pk\<lparr>pk_phase :=
                                              or0 (nth_opt phaseBins (pk_index pk))\<rparr>\<rparr>))))))))"


section \<open>Notions used in the statements\<close>

text \<open>
  The contents of a Complex Buffer in a store, and the contents of the buffer a call
  returns. Two calls have the same result when both return a buffer and the two buffers
  hold the same values.
\<close>

definition contents :: "heap \<Rightarrow> ComplexArray \<Rightarrow> f64 list \<times> f64 list" where
  "contents h c = (arrays h (real_arr c), arrays h (imag_arr c))"

definition result_contents :: "(error + ComplexArray) \<times> heap \<Rightarrow> error + f64 list \<times> f64 list" where
  "result_contents r = (case fst r of Inl e \<Rightarrow> Inl e | Inr c \<Rightarrow> Inr (contents (snd r) c))"

definition same_result :: "(error + ComplexArray) \<times> heap \<Rightarrow> (error + ComplexArray) \<times> heap \<Rightarrow> bool" where
  "same_result x y =
     (case (result_contents x, result_contents y) of (Inr c, Inr d) \<Rightarrow> c = d | _ \<Rightarrow> False)"


text \<open>
  A well-formed buffer of length \<open>n\<close>: two distinct allocated arrays of that length.
\<close>

definition buffer_ok :: "heap \<Rightarrow> nat \<Rightarrow> ComplexArray \<Rightarrow> bool" where
  "buffer_ok h n a \<longleftrightarrow>
     real_arr a \<noteq> imag_arr a \<and> real_arr a < fresh h \<and> imag_arr a < fresh h \<and>
     length (arrays h (real_arr a)) = n \<and> length (arrays h (imag_arr a)) = n"

text \<open>
  The common shape of the elementwise loops, used to reason about all of them at once:
  one iteration reads the four input values at \<open>i\<close> and then writes the two results.
\<close>

definition ew_step ::
  "(f64 \<Rightarrow> f64 \<Rightarrow> f64 \<Rightarrow> f64 \<Rightarrow> f64) \<Rightarrow> (f64 \<Rightarrow> f64 \<Rightarrow> f64 \<Rightarrow> f64 \<Rightarrow> f64) \<Rightarrow>
   ComplexArray \<Rightarrow> ComplexArray \<Rightarrow> ComplexArray \<Rightarrow> nat \<Rightarrow> heap \<Rightarrow> heap" where
  "ew_step f g a b out i h =
     wr (wr h (real_arr out) i
           (f (el h (real_arr a) i) (el h (imag_arr a) i) (el h (real_arr b) i) (el h (imag_arr b) i)))
        (imag_arr out) i
           (g (el h (real_arr a) i) (el h (imag_arr a) i) (el h (real_arr b) i) (el h (imag_arr b) i))"

definition ew_val ::
  "(f64 \<Rightarrow> f64 \<Rightarrow> f64 \<Rightarrow> f64 \<Rightarrow> f64) \<Rightarrow> heap \<Rightarrow> ComplexArray \<Rightarrow> ComplexArray \<Rightarrow> nat \<Rightarrow> f64" where
  "ew_val f h a b i =
     f (arrays h (real_arr a) ! i) (arrays h (imag_arr a) ! i)
       (arrays h (real_arr b) ! i) (arrays h (imag_arr b) ! i)"

definition ew_pair ::
  "(f64 \<Rightarrow> f64 \<Rightarrow> f64 \<Rightarrow> f64 \<Rightarrow> f64) \<Rightarrow> (f64 \<Rightarrow> f64 \<Rightarrow> f64 \<Rightarrow> f64 \<Rightarrow> f64) \<Rightarrow>
   heap \<Rightarrow> ComplexArray \<Rightarrow> ComplexArray \<Rightarrow> nat \<Rightarrow> f64 list \<times> f64 list" where
  "ew_pair f g h a b n = (map (ew_val f h a b) [0..<n], map (ew_val g h a b) [0..<n])"

text \<open>Stores for the examples: a buffer \<open>a\<close> of length 1 and a buffer \<open>b\<close> of length 2;
  two buffers of length 2.\<close>

definition heap_mismatch :: heap where
  "heap_mismatch =
     \<lparr>arrays = (\<lambda>r. [])(0 := [Fin 1], 1 := [Fin 2], 2 := [Fin 3, Fin 4], 3 := [Fin 5, Fin 6]),
      fresh = 4\<rparr>"

definition heap_pair :: heap where
  "heap_pair =
     \<lparr>arrays = (\<lambda>r. [])(0 := [Fin 1, Fin 2], 1 := [Fin 3, Fin 4],
                          2 := [Fin 5, Fin 6], 3 := [Fin 7, Fin 8]),
      fresh = 4\<rparr>"

definition buf_a :: ComplexArray where
  "buf_a = \<lparr>real_arr = 0, imag_arr = 1\<rparr>"

definition buf_b :: ComplexArray where
  "buf_b = \<lparr>real_arr = 2, imag_arr = 3\<rparr>"


text \<open>The plan of size 2, written out.\<close>

definition plan2 :: Radix2Fft where
  "plan2 = \<lparr>psize = 2, bitReverse = [0, 1], twiddles = [\<lparr>cos_t = [Fin 1], sin_t = [Fin 0]\<rparr>]\<rparr>"

section \<open>Notions used for the peak scan\<close>

text \<open>
  The state of the peak scan before iteration \<open>i\<close>, and what the scan maintains: for the
  bins beyond the first (the largest value seen, its first position, and whether one of
  them was positive), and for all bins (the largest value and its first position).
\<close>

definition scan_upto :: "f64 list \<Rightarrow> nat \<Rightarrow> peak_state" where
  "scan_upto amp i =
     fold (findPeak_step amp) [1..<i]
       \<lparr>maxIndex = 0, maxValue = or0 (nth_opt amp 0), hasNonDc = False,
        nonDcIndex = 0, nonDcValue = Fin 0\<rparr>"

definition nondc_inv :: "f64 list \<Rightarrow> nat \<Rightarrow> peak_state \<Rightarrow> bool" where
  "nondc_inv amp i st \<longleftrightarrow>
     (hasNonDc st \<longleftrightarrow> (\<exists>k. 1 \<le> k \<and> k < i \<and> fgt (amp ! k) (Fin 0))) \<and>
     \<not> fgt (Fin 0) (nonDcValue st) \<and>
     (\<forall>k. 1 \<le> k \<and> k < i \<longrightarrow> \<not> fgt (amp ! k) (nonDcValue st)) \<and>
     (if hasNonDc st
      then 1 \<le> nonDcIndex st \<and> nonDcIndex st < i \<and> amp ! nonDcIndex st = nonDcValue st \<and>
           (\<forall>k. 1 \<le> k \<and> k < nonDcIndex st \<longrightarrow> amp ! k \<noteq> nonDcValue st)
      else nonDcValue st = Fin 0 \<and> nonDcIndex st = 0)"

definition max_inv :: "f64 list \<Rightarrow> nat \<Rightarrow> peak_state \<Rightarrow> bool" where
  "max_inv amp i st \<longleftrightarrow>
     maxIndex st < i \<and> amp ! maxIndex st = maxValue st \<and>
     (\<forall>k. k < i \<longrightarrow> \<not> fgt (amp ! k) (maxValue st)) \<and>
     (\<forall>k. k < maxIndex st \<longrightarrow> amp ! k \<noteq> maxValue st)"

text \<open>Inputs for the examples.\<close>

definition amp_tie :: "f64 list" where
  "amp_tie = [Fin 5, Fin 2, Fin 7, Fin 7, Fin 1]"

definition amp_flat :: "f64 list" where
  "amp_flat = [Fin 0, Fin 0, Fin 0]"

definition default_options :: SpectrumOptions where
  "default_options = \<lparr>sampleRate = None, fftSize = None, window = None, sides = None\<rparr>"

definition heap_alt1 :: heap where
  "heap_alt1 = \<lparr>arrays = (\<lambda>r. [])(0 := [Fin 1, Fin (- 1)]), fresh = 1\<rparr>"

definition heap_alt2 :: heap where
  "heap_alt2 = \<lparr>arrays = (\<lambda>r. [])(0 := [Fin 1, Fin (- 1)], 1 := [Fin 1, Fin 1]), fresh = 2\<rparr>"

definition heap_alt3 :: heap where
  "heap_alt3 = \<lparr>arrays = (\<lambda>r. [])(0 := [Fin 1, Fin (- 1)], 1 := [Fin 1, Fin 1], 2 := [Fin 1, Fin (- 1)]),
              fresh = 3\<rparr>"

definition heap_alt4 :: heap where
  "heap_alt4 = \<lparr>arrays = (\<lambda>r. [])(0 := [Fin 1, Fin (- 1)], 1 := [Fin 1, Fin 1], 2 := [Fin 1, Fin (- 1)],
           3 := [Fin 0, Fin 0], 4 := [Fin 0, Fin 0]), fresh = 5\<rparr>"

definition heap_s1 :: heap where
  "heap_s1 = \<lparr>arrays = (\<lambda>r. [])(0 := [Fin 1, Fin (- 1)], 1 := [Fin 1, Fin 1], 2 := [Fin 1, Fin (- 1)],
           3 := [Fin 1, Fin (- 1)], 4 := [Fin 0, Fin 0]), fresh = 5\<rparr>"

definition heap_alt5 :: heap where
  "heap_alt5 = \<lparr>arrays = (\<lambda>r. [])(0 := [Fin 1, Fin (- 1)], 1 := [Fin 1, Fin 1], 2 := [Fin 1, Fin (- 1)],
           3 := [Fin 0, Fin 2], 4 := [Fin 0, Fin 0]), fresh = 5\<rparr>"

definition spec_alt :: ComplexArray where
  "spec_alt = \<lparr>real_arr = 3, imag_arr = 4\<rparr>"

definition result_alt :: SpectrumResult where
  "result_alt = \<lparr>frequencies = [Fin 0, Fin (1 / 2)], amplitude = [Fin 0, Fin 1],
     phase_bins = [Fin 0, Fin 0],
     peak = \<lparr>pk_index = 1, pk_frequency = Fin (1 / 2), pk_amplitude = Fin 1, pk_phase = Fin 0\<rparr>\<rparr>"

section \<open>Notions used for the plan\<close>

text \<open>
  Bit reversal on natural numbers, as the inner loop of \<^verbatim>\<open>buildBitReverse\<close> computes it
  when no 32-bit operation overflows; the twiddle table of stage \<open>s\<close> in closed form; the
  plan of size 4.
\<close>

fun brev :: "nat \<Rightarrow> nat \<Rightarrow> nat \<Rightarrow> nat" where
  "brev 0 x y = y"
| "brev (Suc b) x y = brev b (x div 2) (2 * y + x mod 2)"

definition stage_table :: "nat \<Rightarrow> TwiddleTable" where
  "stage_table s =
     \<lparr>cos_t = map (\<lambda>k. Fin (cos (- 2 * pi * real k / 2 ^ s))) [0..<2 ^ (s - 1)],
      sin_t = map (\<lambda>k. Fin (sin (- 2 * pi * real k / 2 ^ s))) [0..<2 ^ (s - 1)]\<rparr>"

definition plan4 :: Radix2Fft where
  "plan4 = \<lparr>psize = 4, bitReverse = [0, 2, 1, 3],
     twiddles = [\<lparr>cos_t = [Fin 1], sin_t = [Fin 0]\<rparr>,
                 \<lparr>cos_t = [Fin 1, Fin 0], sin_t = [Fin 0, Fin (- 1)]\<rparr>]\<rparr>"

section \<open>Notions used for the output buffer\<close>

text \<open>
  Two stores agree on two buffers; the imaginary input of the scatter; the two input
  length checks of \<^verbatim>\<open>transform\<close>; the inputs are allocated arrays other than the two
  arrays of the output buffer. Then a store with an output buffer of length 1 for a plan
  of size 2, and what the scatter and the butterfly leave of it.
\<close>

definition same_at :: "ref \<Rightarrow> ref \<Rightarrow> ref \<Rightarrow> ref \<Rightarrow> heap \<Rightarrow> heap \<Rightarrow> bool" where
  "same_at oR oI pR pI h g \<longleftrightarrow> arrays h oR = arrays g pR \<and> arrays h oI = arrays g pI"

definition imag_in :: "heap \<Rightarrow> ref option \<Rightarrow> nat \<Rightarrow> f64" where
  "imag_in h inI i = (case inI of None \<Rightarrow> Fin 0 | Some r \<Rightarrow> or0 (rd h r i))"

definition inputs_ok :: "Radix2Fft \<Rightarrow> ref \<Rightarrow> ref option \<Rightarrow> heap \<Rightarrow> bool" where
  "inputs_ok P inR inI h \<longleftrightarrow>
     int (length (arrays h inR)) = psize P \<and>
     (case inI of None \<Rightarrow> True | Some r \<Rightarrow> int (length (arrays h r)) = psize P)"

definition apart :: "ref \<Rightarrow> ref option \<Rightarrow> ComplexArray \<Rightarrow> heap \<Rightarrow> bool" where
  "apart inR inI c h \<longleftrightarrow>
     inR \<noteq> real_arr c \<and> inR \<noteq> imag_arr c \<and> inR < fresh h \<and>
     (case inI of None \<Rightarrow> True | Some r \<Rightarrow> r \<noteq> real_arr c \<and> r \<noteq> imag_arr c \<and> r < fresh h)"

definition heap_short :: heap where
  "heap_short = \<lparr>arrays = (\<lambda>r. [])(0 := [Fin 3, Fin 4], 2 := [Fin 1], 3 := [Fin 2]), fresh = 4\<rparr>"

definition buf_short :: ComplexArray where
  "buf_short = \<lparr>real_arr = 2, imag_arr = 3\<rparr>"

definition heap_c1 :: heap where
  "heap_c1 = \<lparr>arrays = (\<lambda>r. [])(0 := [Fin 3, Fin 4], 2 := [Fin 3], 3 := [Fin 0]), fresh = 4\<rparr>"

definition heap_nan :: heap where
  "heap_nan = \<lparr>arrays = (\<lambda>r. [])(0 := [Fin 3, Fin 4], 2 := [NaN], 3 := [NaN]), fresh = 4\<rparr>"

section \<open>Reading and writing the store\<close>

lemma arrays_wr: "arrays (wr h r i v) r' = (if r' = r then (arrays h r)[i := v] else arrays h r')"
  by (simp add: wr_def)

lemma fresh_wr: "fresh (wr h r i v) = fresh h"
  by (simp add: wr_def)

lemma rd_wr_other: "r' \<noteq> r \<Longrightarrow> rd (wr h r i v) r' j = rd h r' j"
  by (simp add: rd_def wr_def)

lemma el_wr_other: "r' \<noteq> r \<Longrightarrow> el (wr h r i v) r' j = el h r' j"
  by (simp add: el_def rd_wr_other)

lemma el_nth: "i < length (arrays h r) \<Longrightarrow> el h r i = arrays h r ! i"
  by (simp add: el_def rd_def num_def)

lemma upd_prefix:
  assumes "k < length ys"
  shows "(map F [0..<k] @ drop k ys)[k := F k] = map F [0..<Suc k] @ drop (Suc k) ys"
proof (rule nth_equalityI)
  show "length ((map F [0..<k] @ drop k ys)[k := F k]) = length (map F [0..<Suc k] @ drop (Suc k) ys)"
    using assms by simp
next
  fix i assume "i < length ((map F [0..<k] @ drop k ys)[k := F k])"
  then have i: "i < length ys" using assms by simp
  show "(map F [0..<k] @ drop k ys)[k := F k] ! i = (map F [0..<Suc k] @ drop (Suc k) ys) ! i"
  proof (cases "i < k")
    case True
    then show ?thesis using assms by (simp add: nth_append)
  next
    case False
    show ?thesis
    proof (cases "i = k")
      case True
      then show ?thesis using assms by (simp add: nth_append)
    next
      case ne: False
      with False have "k < i" by simp
      then show ?thesis using assms i by (simp add: nth_append nth_list_update)
    qed
  qed
qed

lemma prefix_nth: "k < length ys \<Longrightarrow> (map F [0..<k] @ drop k ys) ! k = ys ! k"
  by (simp add: nth_append)

lemma fold_ew_step:
  assumes d: "real_arr out \<noteq> imag_arr out"
    "real_arr out \<noteq> imag_arr a" "real_arr out \<noteq> imag_arr b"
    "imag_arr out \<noteq> real_arr a" "imag_arr out \<noteq> real_arr b"
  and l: "k \<le> length (arrays h (real_arr a))" "k \<le> length (arrays h (imag_arr a))"
    "k \<le> length (arrays h (real_arr b))" "k \<le> length (arrays h (imag_arr b))"
    "k \<le> length (arrays h (real_arr out))" "k \<le> length (arrays h (imag_arr out))"
  shows "fold (ew_step f g a b out) [0..<k] h =
    h\<lparr>arrays := (arrays h)
      (real_arr out := map (ew_val f h a b) [0..<k] @ drop k (arrays h (real_arr out)),
       imag_arr out := map (ew_val g h a b) [0..<k] @ drop k (arrays h (imag_arr out)))\<rparr>"
  using l
proof (induction k)
  case 0
  then show ?case by simp
next
  case (Suc k)
  let ?hk = "fold (ew_step f g a b out) [0..<k] h"
  have hk: "?hk = h\<lparr>arrays := (arrays h)
      (real_arr out := map (ew_val f h a b) [0..<k] @ drop k (arrays h (real_arr out)),
       imag_arr out := map (ew_val g h a b) [0..<k] @ drop k (arrays h (imag_arr out)))\<rparr>"
    by (rule Suc.IH) (use Suc.prems in simp_all)
  have lens: "k < length (arrays h (real_arr a))" "k < length (arrays h (imag_arr a))"
    "k < length (arrays h (real_arr b))" "k < length (arrays h (imag_arr b))"
    "k < length (arrays h (real_arr out))" "k < length (arrays h (imag_arr out))"
    using Suc.prems by simp_all
  have rdR: "el ?hk r k = arrays h r ! k"
    if "r \<noteq> imag_arr out" "r = real_arr out \<or> k < length (arrays h r)" "r \<noteq> real_arr out \<or> True" for r
    using that lens d by (auto simp: hk el_def rd_def num_def nth_append)
  have rdI: "el ?hk r k = arrays h r ! k"
    if "r \<noteq> real_arr out" "r = imag_arr out \<or> k < length (arrays h r)" for r
    using that lens d by (auto simp: hk el_def rd_def num_def nth_append)
  have e: "el ?hk (real_arr a) k = arrays h (real_arr a) ! k"
    "el ?hk (real_arr b) k = arrays h (real_arr b) ! k"
    "el ?hk (imag_arr a) k = arrays h (imag_arr a) ! k"
    "el ?hk (imag_arr b) k = arrays h (imag_arr b) ! k"
    using rdR[of "real_arr a"] rdR[of "real_arr b"] rdI[of "imag_arr a"] rdI[of "imag_arr b"] d lens
    by auto
  have "fold (ew_step f g a b out) [0..<Suc k] h = ew_step f g a b out k ?hk"
    by simp
  also have "\<dots> = wr (wr ?hk (real_arr out) k (ew_val f h a b k)) (imag_arr out) k (ew_val g h a b k)"
    by (simp add: ew_step_def e ew_val_def)
  also have "\<dots> = h\<lparr>arrays := (arrays h)
      (real_arr out := map (ew_val f h a b) [0..<Suc k] @ drop (Suc k) (arrays h (real_arr out)),
       imag_arr out := map (ew_val g h a b) [0..<Suc k] @ drop (Suc k) (arrays h (imag_arr out)))\<rparr>"
    using d lens unfolding hk wr_def
    by (simp add: fun_upd_twist upd_prefix[symmetric] del: upt_Suc)
  finally show ?case .
qed


lemma ew_loop_result:
  assumes "real_arr out \<noteq> imag_arr out"
    "real_arr out \<noteq> imag_arr a" "real_arr out \<noteq> imag_arr b"
    "imag_arr out \<noteq> real_arr a" "imag_arr out \<noteq> real_arr b"
  and "length (arrays h (real_arr a)) = n" "length (arrays h (imag_arr a)) = n"
    "length (arrays h (real_arr b)) = n" "length (arrays h (imag_arr b)) = n"
    "length (arrays h (real_arr out)) = n" "length (arrays h (imag_arr out)) = n"
  shows "fold (ew_step f g a b out) [0..<n] h =
    h\<lparr>arrays := (arrays h)
      (real_arr out := map (ew_val f h a b) [0..<n],
       imag_arr out := map (ew_val g h a b) [0..<n])\<rparr>"
  using fold_ew_step[of out a b n h f g] assms by simp

lemma ew_inplace:
  assumes "buffer_ok h n a" "buffer_ok h n b"
    "real_arr a \<noteq> imag_arr b" "imag_arr a \<noteq> real_arr b" "out = a \<or> out = b"
  shows "contents (fold (ew_step f g a b out) [0..<n] h) out = ew_pair f g h a b n"
proof -
  have "fold (ew_step f g a b out) [0..<n] h =
    h\<lparr>arrays := (arrays h)
      (real_arr out := map (ew_val f h a b) [0..<n],
       imag_arr out := map (ew_val g h a b) [0..<n])\<rparr>"
    by (rule ew_loop_result) (use assms in \<open>auto simp: buffer_ok_def\<close>)
  moreover have "real_arr out \<noteq> imag_arr out"
    using assms by (auto simp: buffer_ok_def)
  ultimately show ?thesis
    by (simp add: contents_def ew_pair_def)
qed

lemma ew_val_cong:
  "arrays h1 (real_arr a) = arrays h (real_arr a) \<Longrightarrow> arrays h1 (imag_arr a) = arrays h (imag_arr a) \<Longrightarrow>
   arrays h1 (real_arr b) = arrays h (real_arr b) \<Longrightarrow> arrays h1 (imag_arr b) = arrays h (imag_arr b) \<Longrightarrow>
   ew_val f h1 a b = ew_val f h a b"
  by (rule ext) (simp add: ew_val_def)

lemma alloc_eq:
  "alloc n h = (\<lparr>real_arr = fresh h, imag_arr = Suc (fresh h)\<rparr>,
     h\<lparr>arrays := (arrays h)(fresh h := replicate n (Fin 0), Suc (fresh h) := replicate n (Fin 0)),
       fresh := Suc (Suc (fresh h))\<rparr>)"
  by (simp add: alloc_def newF64_def newF64_of_def)

lemma ew_alloc:
  assumes "buffer_ok h n a" "buffer_ok h n b" "alloc n h = (out, h1)"
  shows "contents (fold (ew_step f g a b out) [0..<n] h1) out = ew_pair f g h a b n"
proof -
  have out: "out = \<lparr>real_arr = fresh h, imag_arr = Suc (fresh h)\<rparr>"
    and h1: "h1 = h\<lparr>arrays := (arrays h)(fresh h := replicate n (Fin 0), Suc (fresh h) := replicate n (Fin 0)),
       fresh := Suc (Suc (fresh h))\<rparr>"
    using assms(3) by (simp_all add: alloc_eq)
  have ne: "real_arr a \<noteq> fresh h" "imag_arr a \<noteq> fresh h" "real_arr b \<noteq> fresh h" "imag_arr b \<noteq> fresh h"
    "real_arr a \<noteq> Suc (fresh h)" "imag_arr a \<noteq> Suc (fresh h)"
    "real_arr b \<noteq> Suc (fresh h)" "imag_arr b \<noteq> Suc (fresh h)"
    using assms(1,2) by (auto simp: buffer_ok_def)
  have same: "arrays h1 (real_arr a) = arrays h (real_arr a)" "arrays h1 (imag_arr a) = arrays h (imag_arr a)"
    "arrays h1 (real_arr b) = arrays h (real_arr b)" "arrays h1 (imag_arr b) = arrays h (imag_arr b)"
    using ne by (simp_all add: h1)
  have "fold (ew_step f g a b out) [0..<n] h1 =
    h1\<lparr>arrays := (arrays h1)
      (real_arr out := map (ew_val f h1 a b) [0..<n],
       imag_arr out := map (ew_val g h1 a b) [0..<n])\<rparr>"
    by (rule ew_loop_result)
      (use assms(1,2) ne same in \<open>auto simp: buffer_ok_def out h1\<close>)
  then show ?thesis
    by (simp add: contents_def ew_pair_def out ew_val_cong[OF same])
qed

lemma len_eq: "buffer_ok h n a \<Longrightarrow> len h a = n"
  by (simp add: buffer_ok_def len_def)

lemma same_resultI:
  "fst x = Inr c \<Longrightarrow> fst y = Inr d \<Longrightarrow> contents (snd x) c = contents (snd y) d \<Longrightarrow> same_result x y"
  by (simp add: same_result_def result_contents_def)


lemma alias_via_ew:
  assumes ok: "buffer_ok h n a" "buffer_ok h n b"
    "real_arr a \<noteq> imag_arr b" "imag_arr a \<noteq> real_arr b" "out = a \<or> out = b"
  and st: "\<And>q. real_arr q \<noteq> imag_arr a \<Longrightarrow> real_arr q \<noteq> imag_arr b \<Longrightarrow> step q = ew_step f g a b q"
  shows "same_result (Inr out, fold (step out) [0..<len h a] h)
           (case alloc (len h a) h of (o', h1) \<Rightarrow> (Inr o', fold (step o') [0..<len h1 a] h1))"
proof -
  obtain o' h1 where al: "alloc n h = (o', h1)" by (cases "alloc n h")
  have o': "real_arr o' = fresh h" "imag_arr o' = Suc (fresh h)" and l1: "len h1 a = n"
    using al ok(1) by (auto simp: alloc_eq buffer_ok_def len_def)
  have ne: "real_arr o' \<noteq> imag_arr a" "real_arr o' \<noteq> imag_arr b"
    using o' ok(1,2) by (auto simp: buffer_ok_def)
  have ne2: "real_arr out \<noteq> imag_arr a" "real_arr out \<noteq> imag_arr b"
    using ok by (auto simp: buffer_ok_def)
  show ?thesis
    by (rule same_resultI[where c = out and d = o'])
      (simp_all add: len_eq[OF ok(1)] al l1 st[OF ne] st[OF ne2]
        ew_inplace[OF ok] ew_alloc[OF ok(1,2) al])
qed

lemma scaleInto_step_ew:
  "real_arr out \<noteq> imag_arr a \<Longrightarrow>
   scaleInto_step a s out = ew_step (\<lambda>ar ai br bi. fmul ar s) (\<lambda>ar ai br bi. fmul ai s) a a out"
  by (intro ext) (simp add: scaleInto_step_def ew_step_def Let_def el_def rd_wr_other)

lemma addInto_step_ew:
  "real_arr out \<noteq> imag_arr a \<Longrightarrow> real_arr out \<noteq> imag_arr b \<Longrightarrow>
   addInto_step a b out = ew_step (\<lambda>ar ai br bi. fadd ar br) (\<lambda>ar ai br bi. fadd ai bi) a b out"
  by (intro ext) (simp add: addInto_step_def ew_step_def Let_def el_def rd_wr_other)

lemma subInto_step_ew:
  "real_arr out \<noteq> imag_arr a \<Longrightarrow> real_arr out \<noteq> imag_arr b \<Longrightarrow>
   subInto_step a b out = ew_step (\<lambda>ar ai br bi. fsub ar br) (\<lambda>ar ai br bi. fsub ai bi) a b out"
  by (intro ext) (simp add: subInto_step_def ew_step_def Let_def el_def rd_wr_other)

lemma mulInto_step_ew:
  "mulInto_step a b out =
   ew_step (\<lambda>ar ai br bi. fsub (fmul ar br) (fmul ai bi)) (\<lambda>ar ai br bi. fadd (fmul ar bi) (fmul ai br)) a b out"
  by (intro ext) (simp add: mulInto_step_def ew_step_def Let_def el_def)

lemma mulScalarInto_step_ew:
  "mulScalarInto_step a re im out =
   ew_step (\<lambda>ar ai br bi. fsub (fmul ar re) (fmul ai im)) (\<lambda>ar ai br bi. fadd (fmul ar im) (fmul ai re)) a a out"
  by (intro ext) (simp add: mulScalarInto_step_def ew_step_def Let_def el_def)

lemma divInto_step_ew:
  "divInto_step a b out =
   ew_step (\<lambda>ar ai br bi. fdiv (fadd (fmul ar br) (fmul ai bi)) (fadd (fmul br br) (fmul bi bi)))
           (\<lambda>ar ai br bi. fdiv (fsub (fmul ai br) (fmul ar bi)) (fadd (fmul br br) (fmul bi bi))) a b out"
  by (intro ext) (simp add: divInto_step_def ew_step_def Let_def el_def)

lemma conjInto_step_ew:
  "real_arr out \<noteq> imag_arr a \<Longrightarrow>
   conjInto_step a out = ew_step (\<lambda>ar ai br bi. ar) (\<lambda>ar ai br bi. fneg ai) a a out"
  by (intro ext) (simp add: conjInto_step_def ew_step_def Let_def el_def rd_wr_other)

lemma buffer_ok_cross: "buffer_ok h n a \<Longrightarrow> real_arr a \<noteq> imag_arr a \<and> imag_arr a \<noteq> real_arr a"
  by (auto simp: buffer_ok_def)


lemma scale_alias:
  assumes "buffer_ok h n a"
  shows "same_result (scaleInto a s a h) (scale a s h)"
  using alias_via_ew[OF assms assms, of a "scaleInto_step a s"] buffer_ok_cross[OF assms]
  by (simp add: scaleInto_def scale_def scaleInto_step_ew split: prod.splits)

lemma add_alias:
  assumes "buffer_ok h n a" "buffer_ok h n b"
    "real_arr a \<noteq> imag_arr b" "imag_arr a \<noteq> real_arr b" "out = a \<or> out = b"
  shows "same_result (addInto a b out h) (add a b h)"
  using alias_via_ew[OF assms, of "addInto_step a b"]
  by (simp add: addInto_def add_def addInto_step_ew split: prod.splits)

lemma sub_alias:
  assumes "buffer_ok h n a" "buffer_ok h n b"
    "real_arr a \<noteq> imag_arr b" "imag_arr a \<noteq> real_arr b" "out = a \<or> out = b"
  shows "same_result (subInto a b out h) (sub a b h)"
  using alias_via_ew[OF assms, of "subInto_step a b"]
  by (simp add: subInto_def sub_def subInto_step_ew split: prod.splits)

lemma mul_alias:
  assumes "buffer_ok h n a" "buffer_ok h n b"
    "real_arr a \<noteq> imag_arr b" "imag_arr a \<noteq> real_arr b" "out = a \<or> out = b"
  shows "same_result (mulInto a b out h) (mul a b h)"
  using alias_via_ew[OF assms, of "mulInto_step a b"]
  by (simp add: mulInto_def mul_def mulInto_step_ew split: prod.splits)

lemma div_alias:
  assumes "buffer_ok h n a" "buffer_ok h n b"
    "real_arr a \<noteq> imag_arr b" "imag_arr a \<noteq> real_arr b" "out = a \<or> out = b"
  shows "same_result (divInto a b out h) (div_c a b h)"
  using alias_via_ew[OF assms, of "divInto_step a b"]
  by (simp add: divInto_def div_c_def divInto_step_ew split: prod.splits)

lemma mulScalar_alias:
  assumes "buffer_ok h n a"
  shows "same_result (mulScalarInto a re im a h) (mulScalar a re im h)"
  using alias_via_ew[OF assms assms, of a "mulScalarInto_step a re im"] buffer_ok_cross[OF assms]
  by (simp add: mulScalarInto_def mulScalar_def mulScalarInto_step_ew split: prod.splits)

lemma divScalar_alias:
  assumes "buffer_ok h n a"
  shows "same_result (divScalarInto a re im a h) (divScalar a re im h)"
  using mulScalar_alias[OF assms]
  by (simp add: divScalarInto_def divScalar_def mulScalar_def Let_def)

lemma conj_alias:
  assumes "buffer_ok h n a"
  shows "same_result (conjInto a a h) (conj_c a h)"
  using alias_via_ew[OF assms assms, of a "conjInto_step a"] buffer_ok_cross[OF assms]
  by (simp add: conjInto_def conj_c_def conjInto_step_ew split: prod.splits)

lemma copy_alias:
  assumes "buffer_ok h n a"
  shows "same_result (copyInto a a h) (copy a h)"
proof -
  have "set_arr r r h = Inr h" for r and h :: heap
    by (simp add: set_arr_def)
  then have "copyInto a a h = (Inr a, h)"
    by (simp add: copyInto_def)
  moreover have "fst (copy a h) = Inr \<lparr>real_arr = fresh h, imag_arr = Suc (fresh h)\<rparr>"
    "contents (snd (copy a h)) \<lparr>real_arr = fresh h, imag_arr = Suc (fresh h)\<rparr> = contents h a"
    using assms by (auto simp: copy_def newF64_of_def contents_def buffer_ok_def)
  ultimately show ?thesis
    by (intro same_resultI[where c = a and d = "\<lparr>real_arr = fresh h, imag_arr = Suc (fresh h)\<rparr>"]) simp_all
qed

lemma length_arrays_wr: "length (arrays (wr h r i v) r') = length (arrays h r')"
  by (simp add: wr_def)

lemma fold_step_length:
  assumes "\<And>i h r. length (arrays (step i h) r) = length (arrays h r)"
  shows "length (arrays (fold step is h) r) = length (arrays h r)"
  by (induction "is" arbitrary: h) (simp_all add: assms)





section \<open>Aliasing of the write-into forms\<close>

text \<open>
  C8. For well-formed buffers \<open>a\<close> and \<open>b\<close> of equal length (each made of two distinct
  arrays, the real array of one not being the imaginary array of the other), every
  write-into operation called with the output buffer equal to one of its inputs leaves in
  that buffer exactly the values the allocating form returns for the original inputs.
\<close>

theorem write_into_aliasing:
  assumes "buffer_ok h n a" and "buffer_ok h n b"
    and "real_arr a \<noteq> imag_arr b" and "imag_arr a \<noteq> real_arr b"
  shows "same_result (scaleInto a s a h) (scale a s h) \<and>
         same_result (addInto a b a h) (add a b h) \<and>
         same_result (addInto a b b h) (add a b h) \<and>
         same_result (subInto a b a h) (sub a b h) \<and>
         same_result (subInto a b b h) (sub a b h) \<and>
         same_result (mulInto a b a h) (mul a b h) \<and>
         same_result (mulInto a b b h) (mul a b h) \<and>
         same_result (mulScalarInto a re im a h) (mulScalar a re im h) \<and>
         same_result (divInto a b a h) (div_c a b h) \<and>
         same_result (divInto a b b h) (div_c a b h) \<and>
         same_result (divScalarInto a re im a h) (divScalar a re im h) \<and>
         same_result (conjInto a a h) (conj_c a h) \<and>
         same_result (copyInto a a h) (copy a h)"
  using assms
  by (intro conjI scale_alias add_alias sub_alias mul_alias mulScalar_alias div_alias
      divScalar_alias conj_alias copy_alias) simp_all

theorem write_into_aliasing_witness:
  "buffer_ok heap_pair 2 buf_a \<and> buffer_ok heap_pair 2 buf_b \<and>
   real_arr buf_a \<noteq> imag_arr buf_b \<and> imag_arr buf_a \<noteq> real_arr buf_b \<and>
   same_result (scaleInto buf_a (Fin 2) buf_a heap_pair) (scale buf_a (Fin 2) heap_pair) \<and>
   same_result (addInto buf_a buf_b buf_a heap_pair) (add buf_a buf_b heap_pair) \<and>
   same_result (addInto buf_a buf_b buf_b heap_pair) (add buf_a buf_b heap_pair) \<and>
   same_result (subInto buf_a buf_b buf_a heap_pair) (sub buf_a buf_b heap_pair) \<and>
   same_result (subInto buf_a buf_b buf_b heap_pair) (sub buf_a buf_b heap_pair) \<and>
   same_result (mulInto buf_a buf_b buf_a heap_pair) (mul buf_a buf_b heap_pair) \<and>
   same_result (mulInto buf_a buf_b buf_b heap_pair) (mul buf_a buf_b heap_pair) \<and>
   same_result (mulScalarInto buf_a (Fin 3) (Fin 4) buf_a heap_pair)
     (mulScalar buf_a (Fin 3) (Fin 4) heap_pair) \<and>
   same_result (divInto buf_a buf_b buf_a heap_pair) (div_c buf_a buf_b heap_pair) \<and>
   same_result (divInto buf_a buf_b buf_b heap_pair) (div_c buf_a buf_b heap_pair) \<and>
   same_result (divScalarInto buf_a (Fin 3) (Fin 4) buf_a heap_pair)
     (divScalar buf_a (Fin 3) (Fin 4) heap_pair) \<and>
   same_result (conjInto buf_a buf_a heap_pair) (conj_c buf_a heap_pair) \<and>
   same_result (copyInto buf_a buf_a heap_pair) (copy buf_a heap_pair)"
proof -
  have a: "buffer_ok heap_pair 2 buf_a" and b: "buffer_ok heap_pair 2 buf_b"
    and c: "real_arr buf_a \<noteq> imag_arr buf_b" and d: "imag_arr buf_a \<noteq> real_arr buf_b"
    by (simp_all add: buffer_ok_def heap_pair_def buf_a_def buf_b_def)
  show ?thesis
    using write_into_aliasing [OF a b c d, of "Fin 2" "Fin 3" "Fin 4"] a b c d by simp
qed

text \<open>The in-place product on the example store: \<open>(1 + 3i)(5 + 7i)\<close> and \<open>(2 + 4i)(6 + 8i)\<close>.\<close>

lemma mulInto_in_place_example:
  "result_contents (mulInto buf_a buf_b buf_a heap_pair) = Inr ([Fin (- 16), Fin (- 20)], [Fin 22, Fin 40])"
  by (simp add: result_contents_def contents_def mulInto_def mulInto_step_def len_def heap_pair_def
      buf_a_def buf_b_def rd_def wr_def num_def fsub_def upt_rec Let_def)

section \<open>Length mismatches in the arithmetic layer\<close>



section \<open>The plan of size 2\<close>

lemma round_log2_2: "round_log2 2 = 1"
  by (simp add: round_log2_def compute_floorlog)

lemma to_int32_small: "- (2 ^ 31) \<le> k \<Longrightarrow> k < 2 ^ 31 \<Longrightarrow> to_int32 k = k"
  by (simp add: to_int32_def)

lemma new_plan2: "new_Radix2Fft 2 = Inr plan2"
  by (simp add: new_Radix2Fft_def isPowerOfTwo_def band_def buildTwiddles_def round_log2_2
      twiddle_table_def shl_def shr_def to_int32_small buildBitReverse_def bor_def
      twiddle_angle_def of_i_def plan2_def upt_rec numeral_2_eq_2)

section \<open>Errors are raised before any write\<close>

text \<open>
  C9. When \<^verbatim>\<open>transform\<close> (hence \<^verbatim>\<open>forward\<close>, \<^verbatim>\<open>forwardComplex\<close> and \<^verbatim>\<open>inverse\<close>) or
  \<^verbatim>\<open>applyWindow\<close> raises, the store is the one the call started from: no element of any
  array, the caller's output buffer included, has been written.
\<close>

theorem errors_leave_store_unchanged:
  "(transform P inR inI out isInv h = Some (Inl e, h') \<longrightarrow> h' = h) \<and>
   (applyWindow input win outw h = (Inl e', h'') \<longrightarrow> h'' = h)"
  by (auto simp: transform_def applyWindow_def Let_def split: if_splits option.splits prod.splits)

theorem errors_leave_store_unchanged_witness:
  "transform plan2 0 None (Some buf_b) False heap_mismatch = Some (Inl InvalidLength, heap_mismatch) \<and>
   applyWindow 0 2 (Some 3) heap_mismatch = (Inl InvalidLength, heap_mismatch)"
proof -
  have t: "transform plan2 0 None (Some buf_b) False heap_mismatch = Some (Inl InvalidLength, heap_mismatch)"
    by (simp add: transform_def plan2_def heap_mismatch_def)
  have w: "applyWindow 0 2 (Some 3) heap_mismatch = (Inl InvalidLength, heap_mismatch)"
    by (simp add: applyWindow_def heap_mismatch_def)
  show ?thesis
    using errors_leave_store_unchanged [of plan2 0 None "Some buf_b" False heap_mismatch
        InvalidLength heap_mismatch 0 2 "Some 3" InvalidLength heap_mismatch] t w
    by simp
qed

section \<open>One-sided amplitude scaling\<close>

lemma nth_opt_in: "i < length xs \<Longrightarrow> nth_opt xs i = Some (xs ! i)"
  by (simp add: nth_opt_def)

text \<open>
  C3. For a spectrum \<open>X\<close> of size \<open>N > 0\<close>, the one-sided amplitude array has \<open>N div 2 + 1\<close>
  entries; bin 0 is \<open>|X[0]| / N\<close>; for even \<open>N\<close> bin \<open>N div 2\<close> is \<open>|X[N div 2]| / N\<close>, not
  doubled; every other bin \<open>k\<close> is \<open>2 |X[k]| / N\<close>. Here \<open>|X[k]|\<close> is \<^verbatim>\<open>Math.hypot\<close> of the
  real and imaginary parts, and the quotients are the code's own divisions.
\<close>

theorem one_sided_scaling:
  assumes "0 < N"
    and "length (arrays h (real_arr X)) = N" and "length (arrays h (imag_arr X)) = N"
  shows "length (scaleAmplitudeOneSided (magnitude h X) (int N)) = N div 2 + 1 \<and>
         scaleAmplitudeOneSided (magnitude h X) (int N) ! 0 =
           fdiv (hypot (arrays h (real_arr X) ! 0) (arrays h (imag_arr X) ! 0)) (of_i (int N)) \<and>
         (even N \<longrightarrow>
           scaleAmplitudeOneSided (magnitude h X) (int N) ! (N div 2) =
             fdiv (hypot (arrays h (real_arr X) ! (N div 2)) (arrays h (imag_arr X) ! (N div 2)))
               (of_i (int N))) \<and>
         (\<forall>k. 0 < k \<and> k \<le> N div 2 \<and> \<not> (even N \<and> k = N div 2) \<longrightarrow>
           scaleAmplitudeOneSided (magnitude h X) (int N) ! k =
             fdiv (fmul (of_i 2) (hypot (arrays h (real_arr X) ! k) (arrays h (imag_arr X) ! k)))
               (of_i (int N)))"
proof -
  have bc: "nat (int N div 2 + 1) = N div 2 + 1"
    by (simp add: nat_add_distrib nat_div_distrib)
  have mag: "or0 (nth_opt (magnitude h X) k) =
      hypot (arrays h (real_arr X) ! k) (arrays h (imag_arr X) ! k)" if "k \<le> N div 2" for k
  proof -
    from that assms(1) have "k < N" by (simp add: less_eq_div_iff_mult_less_eq) 
    then show ?thesis
      using assms by (simp add: magnitude_def nth_opt_def or0_def rd_def)
  qed
  have entry: "scaleAmplitudeOneSided (magnitude h X) (int N) ! k =
      (let m = hypot (arrays h (real_arr X) ! k) (arrays h (imag_arr X) ! k)
       in if k = 0 \<or> int k = (if int N mod 2 = 0 then int N div 2 else - 1)
          then fdiv m (of_i (int N)) else fdiv (fmul (of_i 2) m) (of_i (int N)))"
    if "k \<le> N div 2" for k
    using that by (simp add: scaleAmplitudeOneSided_def bc Let_def mag del: upt_Suc)
  have len: "length (scaleAmplitudeOneSided (magnitude h X) (int N)) = N div 2 + 1"
    by (simp add: scaleAmplitudeOneSided_def bc Let_def del: upt_Suc)
  have ev: "int N mod 2 = 0 \<longleftrightarrow> even N"
    by presburger
  have nyq: "int k = int N div 2 \<longleftrightarrow> k = N div 2" for k
    by linarith
  show ?thesis
    using len by (auto simp: entry Let_def ev nyq)
qed


theorem one_sided_scaling_witness:
  "(0::nat) < 2 \<and> length (arrays heap_pair (real_arr buf_a)) = 2 \<and>
   length (arrays heap_pair (imag_arr buf_a)) = 2 \<and>
   length (scaleAmplitudeOneSided (magnitude heap_pair buf_a) (int 2)) = 2 div 2 + 1 \<and>
   scaleAmplitudeOneSided (magnitude heap_pair buf_a) (int 2) ! 0 =
     fdiv (hypot (Fin 1) (Fin 3)) (of_i 2) \<and>
   scaleAmplitudeOneSided (magnitude heap_pair buf_a) (int 2) ! 1 =
     fdiv (hypot (Fin 2) (Fin 4)) (of_i 2)"
proof -
  have l: "length (arrays heap_pair (real_arr buf_a)) = 2"
    "length (arrays heap_pair (imag_arr buf_a)) = 2"
    by (simp_all add: heap_pair_def buf_a_def)
  have v: "arrays heap_pair (real_arr buf_a) = [Fin 1, Fin 2]"
    "arrays heap_pair (imag_arr buf_a) = [Fin 3, Fin 4]"
    by (simp_all add: heap_pair_def buf_a_def)
  show ?thesis
    using one_sided_scaling [of 2 heap_pair buf_a, OF _ l] l by (simp add: v)
qed

section \<open>The peak scan\<close>

lemma fgt_trans: "fgt a b \<Longrightarrow> fgt b c \<Longrightarrow> fgt a c"
  by (cases a; cases b; cases c) simp_all

lemma fgt_irrefl: "\<not> fgt a a"
  by (cases a) simp_all

lemma fgt_NaN_right: "\<not> fgt a NaN"
  by (cases a) simp_all

lemma or0_nth_opt: "i < length xs \<Longrightarrow> or0 (nth_opt xs i) = xs ! i"
  by (simp add: or0_def nth_opt_def)

lemma scan_upto_Suc: "1 \<le> i \<Longrightarrow> scan_upto amp (Suc i) = findPeak_step amp i (scan_upto amp i)"
  by (simp add: scan_upto_def)


lemma step_proj:
  "hasNonDc (findPeak_step amp i st) = (hasNonDc st \<or> fgt (or0 (nth_opt amp i)) (Fin 0))"
  "nonDcValue (findPeak_step amp i st) =
     (if fgt (or0 (nth_opt amp i)) (nonDcValue st) then or0 (nth_opt amp i) else nonDcValue st)"
  "nonDcIndex (findPeak_step amp i st) =
     (if fgt (or0 (nth_opt amp i)) (nonDcValue st) then i else nonDcIndex st)"
  "maxValue (findPeak_step amp i st) =
     (if fgt (or0 (nth_opt amp i)) (maxValue st) then or0 (nth_opt amp i) else maxValue st)"
  "maxIndex (findPeak_step amp i st) =
     (if fgt (or0 (nth_opt amp i)) (maxValue st) then i else maxIndex st)"
  by (simp_all add: findPeak_step_def Let_def)

lemma less_Suc_cases: "k < Suc i \<longleftrightarrow> k < i \<or> k = i"
  by auto

lemma nondc_step:
  assumes inv: "nondc_inv amp i st" and i: "1 \<le> i" "i < length amp"
  shows "nondc_inv amp (Suc i) (findPeak_step amp i st)"
proof -
  let ?v = "amp ! i"
  let ?st = "findPeak_step amp i st"
  have v: "or0 (nth_opt amp i) = ?v" using i(2) by (rule or0_nth_opt)
  from inv have h: "hasNonDc st \<longleftrightarrow> (\<exists>k. 1 \<le> k \<and> k < i \<and> fgt (amp ! k) (Fin 0))"
    and nn: "\<not> fgt (Fin 0) (nonDcValue st)"
    and mx: "\<And>k. 1 \<le> k \<Longrightarrow> k < i \<Longrightarrow> \<not> fgt (amp ! k) (nonDcValue st)"
    and yes: "hasNonDc st \<Longrightarrow> 1 \<le> nonDcIndex st \<and> nonDcIndex st < i \<and>
        amp ! nonDcIndex st = nonDcValue st \<and>
        (\<forall>k. 1 \<le> k \<and> k < nonDcIndex st \<longrightarrow> amp ! k \<noteq> nonDcValue st)"
    and no: "\<not> hasNonDc st \<Longrightarrow> nonDcValue st = Fin 0 \<and> nonDcIndex st = 0"
    by (simp_all add: nondc_inv_def split: if_splits)
  have upd_pos: "fgt ?v (Fin 0)" if up: "fgt ?v (nonDcValue st)"
  proof (cases "hasNonDc st")
    case True
    then have "fgt (amp ! nonDcIndex st) (Fin 0) \<or> \<not> fgt (amp ! nonDcIndex st) (Fin 0)" by simp
    from True h obtain k where k: "1 \<le> k" "k < i" "fgt (amp ! k) (Fin 0)" by auto
    have "\<not> fgt (amp ! k) (nonDcValue st)" using mx k by simp
    have "fgt ?v (amp ! k) \<or> \<not> fgt ?v (amp ! k)" by simp
    show ?thesis
    proof (rule ccontr)
      assume n: "\<not> fgt ?v (Fin 0)"
      have "fgt (amp ! k) (nonDcValue st)"
        using k(3) n up by (cases "amp ! k"; cases ?v; cases "nonDcValue st") auto
      with \<open>\<not> fgt (amp ! k) (nonDcValue st)\<close> show False by simp
    qed
  next
    case False
    with no up show ?thesis by simp
  qed
  have pos_has: "hasNonDc st \<or> fgt ?v (nonDcValue st)" if "fgt ?v (Fin 0)"
  proof (cases "hasNonDc st")
    case True
    then show ?thesis by simp
  next
    case False
    with no have "nonDcValue st = Fin 0" by simp
    with that show ?thesis by simp
  qed
  have c1: "hasNonDc ?st \<longleftrightarrow> (\<exists>k. 1 \<le> k \<and> k < Suc i \<and> fgt (amp ! k) (Fin 0))"
    using h i(1) by (auto simp: step_proj v less_Suc_cases)
  have c2: "\<not> fgt (Fin 0) (nonDcValue ?st)"
    using nn fgt_trans[of "Fin 0" ?v "Fin 0"] upd_pos by (auto simp: step_proj v)
  have c3: "\<not> fgt (amp ! k) (nonDcValue ?st)" if "1 \<le> k" "k < Suc i" for k
  proof (cases "fgt ?v (nonDcValue st)")
    case True
    show ?thesis
    proof (cases "k = i")
      case True
      then show ?thesis using \<open>fgt ?v (nonDcValue st)\<close> by (simp add: step_proj v fgt_irrefl)
    next
      case False
      with that have "k < i" by simp
      then have "\<not> fgt (amp ! k) (nonDcValue st)" using mx that by simp
      then show ?thesis using True fgt_trans by (auto simp: step_proj v)
    qed
  next
    case False
    then show ?thesis using mx that by (auto simp: step_proj v less_Suc_cases)
  qed
  have c4: "1 \<le> nonDcIndex ?st \<and> nonDcIndex ?st < Suc i \<and>
      amp ! nonDcIndex ?st = nonDcValue ?st \<and>
      (\<forall>k. 1 \<le> k \<and> k < nonDcIndex ?st \<longrightarrow> amp ! k \<noteq> nonDcValue ?st)" if hs: "hasNonDc ?st"
  proof (cases "fgt ?v (nonDcValue st)")
    case True
    have "amp ! k \<noteq> ?v" if "1 \<le> k" "k < i" for k
      using mx[OF that] True by auto
    then show ?thesis using True i(1) by (simp add: step_proj v)
  next
    case False
    with hs pos_has have "hasNonDc st" by (auto simp: step_proj v)
    from yes[OF this] False show ?thesis by (simp add: step_proj v)
  qed
  have c5: "nonDcValue ?st = Fin 0 \<and> nonDcIndex ?st = 0" if "\<not> hasNonDc ?st"
  proof -
    from that have "\<not> hasNonDc st" "\<not> fgt ?v (Fin 0)" by (simp_all add: step_proj v)
    with no upd_pos show ?thesis by (auto simp: step_proj v)
  qed
  show ?thesis
    unfolding nondc_inv_def using c1 c2 c3 c4 c5 by presburger
qed

lemma max_step:
  assumes inv: "max_inv amp i st" and i: "1 \<le> i" "i < length amp"
  shows "max_inv amp (Suc i) (findPeak_step amp i st)"
proof -
  let ?v = "amp ! i"
  let ?st = "findPeak_step amp i st"
  have v: "or0 (nth_opt amp i) = ?v" using i(2) by (rule or0_nth_opt)
  from inv have a: "maxIndex st < i" "amp ! maxIndex st = maxValue st"
    and mx: "\<And>k. k < i \<Longrightarrow> \<not> fgt (amp ! k) (maxValue st)"
    and fst: "\<And>k. k < maxIndex st \<Longrightarrow> amp ! k \<noteq> maxValue st"
    by (simp_all add: max_inv_def)
  show ?thesis
  proof (cases "fgt ?v (maxValue st)")
    case True
    have "\<not> fgt (amp ! k) ?v \<and> amp ! k \<noteq> ?v" if "k < i" for k
      using mx[OF that] True fgt_trans by auto
    then show ?thesis
      using True by (simp add: max_inv_def step_proj v less_Suc_cases fgt_irrefl)
  next
    case False
    then show ?thesis
      using a mx fst by (auto simp: max_inv_def step_proj v less_Suc_cases)
  qed
qed


lemma scan_inv:
  assumes "1 \<le> i" "i \<le> length amp"
  shows "nondc_inv amp i (scan_upto amp i) \<and> max_inv amp i (scan_upto amp i)"
  using assms
proof (induction i)
  case 0
  then show ?case by simp
next
  case (Suc i)
  show ?case
  proof (cases "i = 0")
    case True
    have "or0 (nth_opt amp 0) = amp ! 0"
      using Suc.prems by (intro or0_nth_opt) auto
    then show ?thesis
      using True by (simp add: scan_upto_def nondc_inv_def max_inv_def fgt_irrefl)
  next
    case False
    then have i: "1 \<le> i" "i < length amp" using Suc.prems by simp_all
    then have "nondc_inv amp i (scan_upto amp i)" "max_inv amp i (scan_upto amp i)"
      using Suc.IH by simp_all
    then show ?thesis
      using i by (simp add: scan_upto_Suc nondc_step max_step)
  qed
qed

lemma findPeak_scan_upto: "findPeak_scan amp = scan_upto amp (length amp)"
  by (simp add: findPeak_scan_def scan_upto_def)

lemma pk_index_eq:
  "pk_index (findPeak amp freqs) =
     (if hasNonDc (findPeak_scan amp) then nonDcIndex (findPeak_scan amp)
      else maxIndex (findPeak_scan amp))"
  by (simp add: findPeak_def Let_def)

text \<open>
  What the scan selects. With a positive bin beyond the first, the selected index is the
  first among the bins \<open>k \<ge> 1\<close> that no bin \<open>k \<ge> 1\<close> exceeds. Without one (and a non-empty
  array), it is the first among all bins that no bin exceeds.
\<close>

lemma findPeak_first_maximum:
  "((\<exists>k. 1 \<le> k \<and> k < length amp \<and> fgt (amp ! k) (Fin 0)) \<longrightarrow>
      1 \<le> pk_index (findPeak amp freqs) \<and> pk_index (findPeak amp freqs) < length amp \<and>
      (\<forall>k. 1 \<le> k \<and> k < length amp \<longrightarrow> \<not> fgt (amp ! k) (amp ! pk_index (findPeak amp freqs))) \<and>
      (\<forall>k. 1 \<le> k \<and> k < pk_index (findPeak amp freqs) \<longrightarrow>
         amp ! k \<noteq> amp ! pk_index (findPeak amp freqs))) \<and>
   (amp \<noteq> [] \<and> \<not> (\<exists>k. 1 \<le> k \<and> k < length amp \<and> fgt (amp ! k) (Fin 0)) \<longrightarrow>
      pk_index (findPeak amp freqs) < length amp \<and>
      (\<forall>k. k < length amp \<longrightarrow> \<not> fgt (amp ! k) (amp ! pk_index (findPeak amp freqs))) \<and>
      (\<forall>k. k < pk_index (findPeak amp freqs) \<longrightarrow>
         amp ! k \<noteq> amp ! pk_index (findPeak amp freqs)))"
proof (cases "amp = []")
  case True
  then show ?thesis by simp
next
  case False
  then have "1 \<le> length amp" by (cases amp) simp_all
  then have n: "nondc_inv amp (length amp) (findPeak_scan amp)"
    and m: "max_inv amp (length amp) (findPeak_scan amp)"
    using scan_inv[of "length amp" amp] by (simp_all add: findPeak_scan_upto)
  show ?thesis
  proof (cases "hasNonDc (findPeak_scan amp)")
    case True
    with n have "\<exists>k. 1 \<le> k \<and> k < length amp \<and> fgt (amp ! k) (Fin 0)"
      by (simp add: nondc_inv_def)
    moreover from n True have "1 \<le> nonDcIndex (findPeak_scan amp)"
      "nonDcIndex (findPeak_scan amp) < length amp"
      "amp ! nonDcIndex (findPeak_scan amp) = nonDcValue (findPeak_scan amp)"
      "\<forall>k. 1 \<le> k \<and> k < nonDcIndex (findPeak_scan amp) \<longrightarrow> amp ! k \<noteq> nonDcValue (findPeak_scan amp)"
      "\<forall>k. 1 \<le> k \<and> k < length amp \<longrightarrow> \<not> fgt (amp ! k) (nonDcValue (findPeak_scan amp))"
      by (simp_all add: nondc_inv_def)
    ultimately show ?thesis
      using True by (simp add: pk_index_eq)
  next
    case no: False
    with n have "\<not> (\<exists>k. 1 \<le> k \<and> k < length amp \<and> fgt (amp ! k) (Fin 0))"
      by (simp add: nondc_inv_def)
    moreover from m have "maxIndex (findPeak_scan amp) < length amp"
      "amp ! maxIndex (findPeak_scan amp) = maxValue (findPeak_scan amp)"
      "\<forall>k. k < length amp \<longrightarrow> \<not> fgt (amp ! k) (maxValue (findPeak_scan amp))"
      "\<forall>k. k < maxIndex (findPeak_scan amp) \<longrightarrow> amp ! k \<noteq> maxValue (findPeak_scan amp)"
      by (simp_all add: max_inv_def)
    ultimately show ?thesis
      using no by (auto simp: pk_index_eq)
  qed
qed

text \<open>When no bin beyond the first exceeds the first, the overall maximum stays at index 0.\<close>

lemma scan_dc:
  assumes "\<And>k. 1 \<le> k \<Longrightarrow> k < length amp \<Longrightarrow> \<not> fgt (amp ! k) (or0 (nth_opt amp 0))"
    and "i \<le> length amp"
  shows "maxIndex (scan_upto amp i) = 0 \<and> maxValue (scan_upto amp i) = or0 (nth_opt amp 0)"
  using assms(2)
proof (induction i)
  case 0
  then show ?case by (simp add: scan_upto_def)
next
  case (Suc i)
  show ?case
  proof (cases "i = 0")
    case True
    then show ?thesis by (simp add: scan_upto_def)
  next
    case False
    then have i: "1 \<le> i" "i < length amp" using Suc.prems by simp_all
    then have "\<not> fgt (or0 (nth_opt amp i)) (or0 (nth_opt amp 0))"
      using assms(1)[of i] by (simp add: or0_nth_opt)
    then show ?thesis
      using Suc.IH i by (simp add: scan_upto_Suc step_proj)
  qed
qed

lemma peak_all_zero:
  assumes "\<And>k. 1 \<le> k \<Longrightarrow> k < length amp \<Longrightarrow> amp ! k = Fin 0"
    and "amp \<noteq> [] \<Longrightarrow> \<not> fgt (Fin 0) (amp ! 0)"
  shows "pk_index (findPeak amp freqs) = 0"
proof (cases "amp = []")
  case True
  then show ?thesis by (simp add: pk_index_eq findPeak_scan_def)
next
  case False
  then have l: "1 \<le> length amp" by (cases amp) simp_all
  then have n: "nondc_inv amp (length amp) (findPeak_scan amp)"
    using scan_inv[of "length amp" amp] by (simp add: findPeak_scan_upto)
  have "\<not> hasNonDc (findPeak_scan amp)"
    using n assms(1) by (auto simp: nondc_inv_def)
  moreover have "maxIndex (findPeak_scan amp) = 0"
    using scan_dc[of amp "length amp"] assms l False
    by (simp add: findPeak_scan_upto or0_nth_opt)
  ultimately show ?thesis by (simp add: pk_index_eq)
qed


text \<open>
  C10. In \<^verbatim>\<open>findPeak\<close>, when a bin at \<open>k \<ge> 1\<close> is positive, the index chosen is at least 1,
  no bin at \<open>k \<ge> 1\<close> is greater than the chosen one, and no earlier bin at \<open>k \<ge> 1\<close> is
  equal to it: among tied maxima the smallest index wins. When no bin at \<open>k \<ge> 1\<close> is
  positive, the index chosen is the overall maximum with the same rule: no bin is greater
  and no earlier bin is equal.
\<close>

theorem peak_first_maximum:
  "((\<exists>k. 1 \<le> k \<and> k < length amp \<and> fgt (amp ! k) (Fin 0)) \<longrightarrow>
      1 \<le> pk_index (findPeak amp freqs) \<and> pk_index (findPeak amp freqs) < length amp \<and>
      (\<forall>k. 1 \<le> k \<and> k < length amp \<longrightarrow> \<not> fgt (amp ! k) (amp ! pk_index (findPeak amp freqs))) \<and>
      (\<forall>k. 1 \<le> k \<and> k < pk_index (findPeak amp freqs) \<longrightarrow>
         amp ! k \<noteq> amp ! pk_index (findPeak amp freqs))) \<and>
   (amp \<noteq> [] \<and> \<not> (\<exists>k. 1 \<le> k \<and> k < length amp \<and> fgt (amp ! k) (Fin 0)) \<longrightarrow>
      pk_index (findPeak amp freqs) < length amp \<and>
      (\<forall>k. k < length amp \<longrightarrow> \<not> fgt (amp ! k) (amp ! pk_index (findPeak amp freqs))) \<and>
      (\<forall>k. k < pk_index (findPeak amp freqs) \<longrightarrow>
         amp ! k \<noteq> amp ! pk_index (findPeak amp freqs)))"
  by (rule findPeak_first_maximum)

lemma findPeak_tie: "pk_index (findPeak amp_tie []) = 2"
  by (simp add: findPeak_def findPeak_scan_def findPeak_step_def amp_tie_def nth_opt_def or0_def
      upt_rec Let_def)

lemma findPeak_flat: "pk_index (findPeak amp_flat []) = 0"
  by (simp add: findPeak_def findPeak_scan_def findPeak_step_def amp_flat_def nth_opt_def or0_def
      upt_rec Let_def)

theorem peak_first_maximum_witness:
  "(\<exists>k. 1 \<le> k \<and> k < length amp_tie \<and> fgt (amp_tie ! k) (Fin 0)) \<and>
   pk_index (findPeak amp_tie []) = 2 \<and> amp_tie ! 2 = amp_tie ! 3 \<and>
   \<not> fgt (amp_tie ! 3) (amp_tie ! 2) \<and> \<not> fgt (amp_tie ! 4) (amp_tie ! 2) \<and>
   amp_tie ! 1 \<noteq> amp_tie ! 2 \<and>
   amp_flat \<noteq> [] \<and> \<not> (\<exists>k. 1 \<le> k \<and> k < length amp_flat \<and> fgt (amp_flat ! k) (Fin 0)) \<and>
   pk_index (findPeak amp_flat []) = 0 \<and>
   \<not> fgt (amp_flat ! 1) (amp_flat ! 0) \<and> \<not> fgt (amp_flat ! 2) (amp_flat ! 0)"
proof -
  have pos: "\<exists>k. 1 \<le> k \<and> k < length amp_tie \<and> fgt (amp_tie ! k) (Fin 0)"
    by (rule exI[of _ 1]) (simp add: amp_tie_def)
  have flat: "\<not> (\<exists>k. 1 \<le> k \<and> k < length amp_flat \<and> fgt (amp_flat ! k) (Fin 0))"
    by (auto simp: amp_flat_def nth_Cons split: nat.splits)
  have ne: "amp_flat \<noteq> []" and tie: "amp_tie ! 2 = amp_tie ! 3"
    by (simp_all add: amp_flat_def amp_tie_def)
  have vals: "\<not> fgt (amp_tie ! 3) (amp_tie ! 2)" "\<not> fgt (amp_tie ! 4) (amp_tie ! 2)"
    "amp_tie ! 1 \<noteq> amp_tie ! 2"
    "\<not> fgt (amp_flat ! 1) (amp_flat ! 0)" "\<not> fgt (amp_flat ! 2) (amp_flat ! 0)"
    by (simp_all add: amp_flat_def amp_tie_def)
  show ?thesis
    using peak_first_maximum [of amp_tie "[]"] peak_first_maximum [of amp_flat "[]"]
      pos flat ne tie vals
    by (simp add: findPeak_tie findPeak_flat)
qed

section \<open>Array lengths through the transform\<close>

lemma butterfly_length:
  "length (arrays (butterfly t s oR oI half k j h) r) = length (arrays h r)"
  by (simp add: butterfly_def Let_def length_arrays_wr)

lemma scatter_step_length:
  "length (arrays (scatter_step P inR inI oR oI i h) r) = length (arrays h r)"
  by (simp add: scatter_step_def Let_def length_arrays_wr split: option.splits)

lemma inverse_scale_step_length:
  "length (arrays (inverse_scale_step sc oR oI i h) r) = length (arrays h r)"
  by (simp add: inverse_scale_step_def Let_def length_arrays_wr)


lemma block_loop_length:
  assumes "block_loop sz m body k h = Some h'"
    and b: "\<And>k h. length (arrays (body k h) r) = length (arrays h r)"
  shows "length (arrays h' r) = length (arrays h r)"
proof -
  have "length (arrays h' r) = length (arrays h r) \<or> (\<exists>k h. length (arrays (body k h) r) \<noteq> length (arrays h r))"
  proof (rule block_loop.raw_induct
      [where P = "\<lambda>sz m bd k h h'. length (arrays h' r) = length (arrays h r) \<or>
          (\<exists>k h. length (arrays (bd k h) r) \<noteq> length (arrays h r))", OF _ assms(1)])
    fix loop :: "int \<Rightarrow> int \<Rightarrow> (int \<Rightarrow> heap \<Rightarrow> heap) \<Rightarrow> int \<Rightarrow> heap \<Rightarrow> heap option"
      and sz m bd k h h'
    assume IH: "\<And>sz m bd k h h'. loop sz m bd k h = Some h' \<Longrightarrow>
        length (arrays h' r) = length (arrays h r) \<or>
          (\<exists>k h. length (arrays (bd k h) r) \<noteq> length (arrays h r))"
      and eq: "(if k < sz then loop sz m bd (k + m) (bd k h) else Some h) = Some h'"
    show "length (arrays h' r) = length (arrays h r) \<or>
          (\<exists>k h. length (arrays (bd k h) r) \<noteq> length (arrays h r))"
    proof (cases "k < sz")
      case True
      with eq have "loop sz m bd (k + m) (bd k h) = Some h'" by simp
      from IH[OF this] show ?thesis by metis
    next
      case False
      with eq show ?thesis by simp
    qed
  qed
  with b show ?thesis by blast
qed

lemma stage_pass_length:
  "stage_pass sz isInv oR oI stage t h = Some h' \<Longrightarrow> length (arrays h' r) = length (arrays h r)"
  unfolding stage_pass_def Let_def
  by (erule block_loop_length) (simp add: fold_step_length butterfly_length)

lemma stage_loop_length:
  "stage_loop sz isInv oR oI stage ts h = Some h' \<Longrightarrow> length (arrays h' r) = length (arrays h r)"
proof (induction ts arbitrary: stage h)
  case Nil
  then show ?case by simp
next
  case (Cons t ts)
  then show ?case
    by (auto split: option.splits dest: stage_pass_length)
qed

lemma transform_into_length:
  assumes "transform_into P inR inI res isInv h = Some h'"
  shows "length (arrays h' r) = length (arrays h r)"
proof -
  let ?h1 = "fold (scatter_step P inR inI (real_arr res) (imag_arr res)) [0..<nat (psize P)] h"
  from assms obtain h2 where s: "stage_loop (psize P) isInv (real_arr res) (imag_arr res) 0 (twiddles P) ?h1 = Some h2"
    and h': "h' = (if isInv
                   then fold (inverse_scale_step (fdiv (of_i 1) (of_i (psize P))) (real_arr res) (imag_arr res))
                          [0..<nat (psize P)] h2
                   else h2)"
    by (auto simp: transform_into_def Let_def split: option.splits)
  have "length (arrays ?h1 r) = length (arrays h r)"
    by (simp add: fold_step_length scatter_step_length)
  moreover have "length (arrays h2 r) = length (arrays ?h1 r)"
    using s by (rule stage_loop_length)
  moreover have "length (arrays h' r) = length (arrays h2 r)"
    by (simp add: h' fold_step_length inverse_scale_step_length)
  ultimately show ?thesis by simp
qed

lemma createComplexArray_eq:
  "createComplexArray sz (Fin 0) h =
     (\<lparr>real_arr = fresh h, imag_arr = Suc (fresh h)\<rparr>,
      h\<lparr>arrays := (arrays h)(fresh h := replicate (nat sz) (Fin 0),
                               Suc (fresh h) := replicate (nat sz) (Fin 0)),
        fresh := Suc (Suc (fresh h))\<rparr>)"
  by (simp add: createComplexArray_def newF64_of_def Let_def)

lemma transform_fresh_result:
  assumes "transform P inR inI None isInv h = Some (Inr X, h')"
  shows "X = \<lparr>real_arr = fresh h, imag_arr = Suc (fresh h)\<rparr> \<and>
         length (arrays h' (real_arr X)) = nat (psize P) \<and>
         length (arrays h' (imag_arr X)) = nat (psize P)"
proof -
  let ?h0 = "snd (createComplexArray (psize P) (Fin 0) h)"
  let ?c = "\<lparr>real_arr = fresh h, imag_arr = Suc (fresh h)\<rparr>"
  from assms have X: "X = ?c" and t: "transform_into P inR inI ?c isInv ?h0 = Some h'"
    by (auto simp: transform_def createComplexArray_eq split: if_splits option.splits)
  have "length (arrays h' r) = length (arrays ?h0 r)" for r
    using t by (rule transform_into_length)
  then show ?thesis
    by (simp add: X createComplexArray_eq)
qed


section \<open>The peak of a spectrum\<close>

lemma new_FFT_size: "new_FFT sz = Inr P \<Longrightarrow> psize P = sz \<and> 0 < sz"
  by (auto simp: new_FFT_def new_Radix2Fft_def isPowerOfTwo_def split: if_splits sum.splits)

lemma hypot_nonneg: "\<not> fgt (Fin 0) (hypot a b)"
  by (cases a; cases b) (simp_all add: not_less)

lemma fmul2_nonneg: "\<not> fgt (Fin 0) v \<Longrightarrow> \<not> fgt (Fin 0) (fmul (of_i 2) v)"
  by (cases v) (simp_all add: of_i_def)

lemma fdiv_pos_nonneg: "0 < sz \<Longrightarrow> \<not> fgt (Fin 0) v \<Longrightarrow> \<not> fgt (Fin 0) (fdiv v (of_i sz))"
  by (cases v) (simp_all add: of_i_def not_less)

lemma magnitude_entry_nonneg: "\<not> fgt (Fin 0) (or0 (nth_opt (magnitude h X) k))"
  by (simp add: or0_def nth_opt_def magnitude_def hypot_nonneg)

lemma one_sided_nonneg:
  assumes "0 < sz" "k < length (scaleAmplitudeOneSided (magnitude h X) sz)"
  shows "\<not> fgt (Fin 0) (scaleAmplitudeOneSided (magnitude h X) sz ! k)"
  using assms
  by (simp add: scaleAmplitudeOneSided_def Let_def fdiv_pos_nonneg fmul2_nonneg
      magnitude_entry_nonneg del: upt_Suc)

lemma two_sided_nonneg:
  assumes "0 < sz" "k < length (scaleAmplitudeTwoSided (magnitude h X) sz)"
  shows "\<not> fgt (Fin 0) (scaleAmplitudeTwoSided (magnitude h X) sz ! k)"
  using assms
  by (simp add: scaleAmplitudeTwoSided_def fdiv_pos_nonneg magnitude_entry_nonneg del: upt_Suc)

lemma spectrum_parts:
  assumes "spectrum samples opts = Some (Inr res)"
  obtains N h X where "0 < N"
    and "length (arrays h (real_arr X)) = nat N"
    and "amplitude res =
      (if (case sides opts of None \<Rightarrow> One | Some x \<Rightarrow> x) = One
       then scaleAmplitudeOneSided (magnitude h X) N else scaleAmplitudeTwoSided (magnitude h X) N)"
    and "phase_bins res =
      (if (case sides opts of None \<Rightarrow> One | Some x \<Rightarrow> x) = One
       then take (nat (N div 2 + 1)) (phase h X) else phase h X)"
    and "binFrequencies N (case sampleRate opts of None \<Rightarrow> Fin 1 | Some x \<Rightarrow> x)
           (case sides opts of None \<Rightarrow> One | Some x \<Rightarrow> x) = Inr (frequencies res)"
    and "peak res = (findPeak (amplitude res) (frequencies res))
           \<lparr>pk_phase := or0 (nth_opt (phase_bins res) (pk_index (findPeak (amplitude res) (frequencies res))))\<rparr>"
proof -
  let ?sd = "case sides opts of None \<Rightarrow> One | Some x \<Rightarrow> x"
  let ?sr = "case sampleRate opts of None \<Rightarrow> Fin 1 | Some x \<Rightarrow> x"
  let ?wt = "case window opts of None \<Rightarrow> Rect | Some x \<Rightarrow> x"
  from assms obtain N where N: "(case fftSize opts of None \<Rightarrow> nextPowerOfTwo (int (length samples))
               | Some n \<Rightarrow> Some n) = Some N"
    by (auto simp: spectrum_def Let_def split: option.splits)
  from assms N obtain P where P: "new_FFT N = Inr P"
    by (auto simp: spectrum_def Let_def split: sum.splits)
  from assms N P obtain win where win: "createWindow ?wt N = Inr win"
    by (auto simp: spectrum_def Let_def split: sum.splits)
  obtain frame_r h1 where f: "newF64_of (buildFrame samples N) empty_heap = (frame_r, h1)"
    by (cases "newF64_of (buildFrame samples N) empty_heap")
  obtain win_r h2 where w: "newF64_of win h1 = (win_r, h2)"
    by (cases "newF64_of win h1")
  from assms N P win f w obtain windowed h3 where a: "applyWindow frame_r win_r None h2 = (Inr windowed, h3)"
    by (auto simp: spectrum_def Let_def split: sum.splits prod.splits)
  from assms N P win f w a obtain X h4 where t: "forward P windowed None h3 = Some (Inr X, h4)"
    by (auto simp: spectrum_def Let_def split: sum.splits prod.splits option.splits)
  let ?amp = "if ?sd = One then scaleAmplitudeOneSided (magnitude h4 X) N
              else scaleAmplitudeTwoSided (magnitude h4 X) N"
  let ?pb = "if ?sd = One then take (nat (N div 2 + 1)) (phase h4 X) else phase h4 X"
  from assms N P win f w a t obtain freqs where b: "binFrequencies N ?sr ?sd = Inr freqs"
    by (auto simp: spectrum_def Let_def split: sum.splits)
  from assms N P win f w a t b have res: "res = \<lparr>frequencies = freqs, amplitude = ?amp,
      phase_bins = ?pb, peak = (findPeak ?amp freqs)\<lparr>pk_phase :=
         or0 (nth_opt ?pb (pk_index (findPeak ?amp freqs)))\<rparr>\<rparr>"
    by (simp add: spectrum_def Let_def)
  have sz: "psize P = N" "0 < N" using new_FFT_size[OF P] by simp_all
  have len: "length (arrays h4 (real_arr X)) = nat N"
    using transform_fresh_result[of P windowed None False h3 X h4] t sz by (auto simp: forward_def)
  show ?thesis
    by (rule that[of N h4 X]) (simp_all add: sz len res b)
qed


lemma binFrequencies_length:
  "binFrequencies N sr sd = Inr freqs \<Longrightarrow>
   length freqs = nat (if sd = One then N div 2 + 1 else N)"
  by (auto simp: binFrequencies_def Let_def split: if_splits)

text \<open>
  C4. Whenever \<^verbatim>\<open>spectrum\<close> returns a result: if a bin of its amplitude array at \<open>k \<ge> 1\<close> is
  positive, the peak index is at least 1 and no bin at \<open>k \<ge> 1\<close> is greater than the bin
  at the peak index; if every bin at \<open>k \<ge> 1\<close> is zero, the peak index is 0; and the peak's
  frequency, amplitude and phase are the entries of the three arrays at the peak index,
  which lies within all three.
\<close>

theorem spectrum_peak:
  assumes "spectrum samples opts = Some (Inr res)"
  shows "((\<exists>k. 1 \<le> k \<and> k < length (amplitude res) \<and> fgt (amplitude res ! k) (Fin 0)) \<longrightarrow>
            1 \<le> pk_index (peak res) \<and>
            (\<forall>k. 1 \<le> k \<and> k < length (amplitude res) \<longrightarrow>
               \<not> fgt (amplitude res ! k) (amplitude res ! pk_index (peak res)))) \<and>
         ((\<forall>k. 1 \<le> k \<and> k < length (amplitude res) \<longrightarrow> amplitude res ! k = Fin 0) \<longrightarrow>
            pk_index (peak res) = 0) \<and>
         pk_index (peak res) < length (amplitude res) \<and>
         length (frequencies res) = length (amplitude res) \<and>
         length (phase_bins res) = length (amplitude res) \<and>
         pk_frequency (peak res) = frequencies res ! pk_index (peak res) \<and>
         pk_amplitude (peak res) = amplitude res ! pk_index (peak res) \<and>
         pk_phase (peak res) = phase_bins res ! pk_index (peak res)"
proof -
  let ?sd = "case sides opts of None \<Rightarrow> One | Some x \<Rightarrow> x"
  let ?amp = "amplitude res" and ?fr = "frequencies res" and ?pb = "phase_bins res"
  let ?idx = "pk_index (findPeak ?amp ?fr)"
  from assms obtain N h X where N: "0 < N"
    and lenX: "length (arrays h (real_arr X)) = nat N"
    and amp: "?amp = (if ?sd = One then scaleAmplitudeOneSided (magnitude h X) N
                      else scaleAmplitudeTwoSided (magnitude h X) N)"
    and pb: "?pb = (if ?sd = One then take (nat (N div 2 + 1)) (phase h X) else phase h X)"
    and fr: "binFrequencies N (case sampleRate opts of None \<Rightarrow> Fin 1 | Some x \<Rightarrow> x) ?sd = Inr ?fr"
    and pk: "peak res = (findPeak ?amp ?fr)\<lparr>pk_phase := or0 (nth_opt ?pb ?idx)\<rparr>"
    by (rule spectrum_parts)
  have idx: "pk_index (peak res) = ?idx" by (simp add: pk)
  have half: "nat (N div 2 + 1) \<le> nat N" using N by linarith
  have len_amp: "length ?amp = nat (if ?sd = One then N div 2 + 1 else N)"
    by (simp add: amp scaleAmplitudeOneSided_def scaleAmplitudeTwoSided_def Let_def del: upt_Suc)
  have len_fr: "length ?fr = length ?amp"
    using binFrequencies_length[OF fr] len_amp by simp
  have len_pb: "length ?pb = length ?amp"
    using half by (simp add: pb len_amp phase_def lenX)
  have ne: "?amp \<noteq> []"
    using len_amp N by (auto split: if_splits)
  have nonneg: "\<not> fgt (Fin 0) (?amp ! k)" if "k < length ?amp" for k
    using that N one_sided_nonneg[of N k h X] two_sided_nonneg[of N k h X]
    by (simp add: amp split: if_splits)
  have range: "?idx < length ?amp"
    using findPeak_first_maximum[of ?amp ?fr] ne by blast
  have c1: "(\<exists>k. 1 \<le> k \<and> k < length ?amp \<and> fgt (?amp ! k) (Fin 0)) \<longrightarrow>
      1 \<le> ?idx \<and> (\<forall>k. 1 \<le> k \<and> k < length ?amp \<longrightarrow> \<not> fgt (?amp ! k) (?amp ! ?idx))"
    using findPeak_first_maximum[of ?amp ?fr] by blast
  have c2: "(\<forall>k. 1 \<le> k \<and> k < length ?amp \<longrightarrow> ?amp ! k = Fin 0) \<longrightarrow> ?idx = 0"
  proof
    assume z: "\<forall>k. 1 \<le> k \<and> k < length ?amp \<longrightarrow> ?amp ! k = Fin 0"
    show "?idx = 0"
      by (rule peak_all_zero) (use z nonneg ne in auto)
  qed
  have vals: "pk_frequency (peak res) = ?fr ! ?idx" "pk_amplitude (peak res) = ?amp ! ?idx"
    "pk_phase (peak res) = ?pb ! ?idx"
    using range len_fr len_pb by (simp_all add: pk findPeak_def Let_def or0_nth_opt)
  show ?thesis
    unfolding idx using c1 c2 range len_fr len_pb vals unfolding idx by blast
qed


section \<open>A spectrum computed step by step\<close>

text \<open>The samples \<open>1, -1\<close> with the default options: size 2, one-sided, rectangular window.\<close>

lemma nextPowerOfTwo_2: "nextPowerOfTwo 2 = Some 2"
  by (simp add: nextPowerOfTwo_def nextPow_loop.simps shl_def to_int32_small)

lemma new_FFT_2: "new_FFT 2 = Inr plan2"
  by (simp add: new_FFT_def new_plan2 isPowerOfTwo_def band_def to_int32_small)


lemma size_alt: "nextPowerOfTwo (int (length [Fin 1, Fin (- 1)])) = Some 2"
  by (simp add: nextPowerOfTwo_2)

lemma window_alt: "createWindow Rect 2 = Inr [Fin 1, Fin 1]"
  by (simp add: createWindow_def numeral_2_eq_2)

lemma frame_alt: "newF64_of (buildFrame [Fin 1, Fin (- 1)] 2) empty_heap = (0, heap_alt1)"
  by (simp add: newF64_of_def buildFrame_def empty_heap_def heap_alt1_def nth_opt_def or0_def
      upt_rec numeral_2_eq_2)

lemma win_alt: "newF64_of [Fin 1, Fin 1] heap_alt1 = (1, heap_alt2)"
  by (simp add: newF64_of_def heap_alt1_def heap_alt2_def)

lemma applyWindow_alt: "applyWindow 0 1 None heap_alt2 = (Inr 2, heap_alt3)"
  by (simp add: applyWindow_def heap_alt2_def heap_alt3_def newF64_def newF64_of_def
      applyWindow_step_def rd_def wr_def or0_def upt_rec numeral_2_eq_2)

lemma create_alt: "createComplexArray 2 (Fin 0) heap_alt3 =
   (spec_alt, heap_alt4)"
  by (simp add: createComplexArray_def newF64_of_def heap_alt3_def heap_alt4_def spec_alt_def
      numeral_2_eq_2 Let_def)

lemma scatter_alt:
  "fold (scatter_step plan2 2 None 3 4) [0..<2]
     heap_alt4 = heap_s1"
  by (simp add: scatter_step_def plan2_def nth_opt_def rd_def wr_def or0_def heap_s1_def heap_alt4_def
      upt_rec numeral_2_eq_2)

lemma butterfly_alt:
  "butterfly \<lparr>cos_t = [Fin 1], sin_t = [Fin 0]\<rparr> (of_i 1) 3 4 1 0 0 heap_s1 = heap_alt5"
  by (simp add: butterfly_def nth_opt_def el_def rd_def wr_def num_def fsub_def of_i_def
      heap_s1_def heap_alt5_def Let_def)

lemma stage_alt: "stage_pass 2 False 3 4 0 \<lparr>cos_t = [Fin 1], sin_t = [Fin 0]\<rparr> heap_s1 = Some heap_alt5"
proof -
  have m: "shl 1 (int 0 + 1) = 2" by (simp add: shl_def to_int32_small)
  have h: "shr 2 1 = 1" by (simp add: shr_def to_int32_small)
  have u: "[0..<nat 1] = [0]" by simp
  show ?thesis
    unfolding stage_pass_def m h Let_def
    by (subst block_loop.simps, simp add: u butterfly_alt, subst block_loop.simps, simp)
qed

lemma forward_alt: "forward plan2 2 None heap_alt3 = Some (Inr spec_alt, heap_alt5)"
proof -
  have l: "int (length (arrays heap_alt3 2)) = psize plan2"
    by (simp add: heap_alt3_def plan2_def)
  have p: "psize plan2 = 2" "twiddles plan2 = [\<lparr>cos_t = [Fin 1], sin_t = [Fin 0]\<rparr>]"
    by (simp_all add: plan2_def)
  have n: "[0..<nat 2] = [0..<2]" by simp
  have s: "real_arr spec_alt = 3" "imag_arr spec_alt = 4" by (simp_all add: spec_alt_def)
  have "transform_into plan2 2 None spec_alt False
     heap_alt4 = Some heap_alt5"
    unfolding transform_into_def p Let_def n s scatter_alt
    by (simp add: stage_alt)
  then show ?thesis
    unfolding forward_def transform_def using l by (simp add: p create_alt)
qed

lemma magnitude_alt: "magnitude heap_alt5 spec_alt = [Fin 0, Fin 2]"
  by (simp add: magnitude_def heap_alt5_def spec_alt_def rd_def or0_def upt_rec numeral_2_eq_2)

lemma phase_alt: "phase heap_alt5 spec_alt = [Fin 0, Fin 0]"
  by (simp add: phase_def heap_alt5_def spec_alt_def rd_def or0_def upt_rec numeral_2_eq_2)

lemma amplitude_alt: "scaleAmplitudeOneSided [Fin 0, Fin 2] 2 = [Fin 0, Fin 1]"
  by (simp add: scaleAmplitudeOneSided_def nth_opt_def or0_def of_i_def upt_rec numeral_2_eq_2)

lemma frequencies_alt: "binFrequencies 2 (Fin 1) One = Inr [Fin 0, Fin (1 / 2)]"
  by (simp add: binFrequencies_def fle_def of_i_def upt_rec numeral_2_eq_2)

lemma findPeak_alt:
  "findPeak [Fin 0, Fin 1] [Fin 0, Fin (1 / 2)] =
     \<lparr>pk_index = 1, pk_frequency = Fin (1 / 2), pk_amplitude = Fin 1, pk_phase = Fin 0\<rparr>"
  by (simp add: findPeak_def findPeak_scan_def findPeak_step_def nth_opt_def or0_def upt_rec Let_def)

lemma spectrum_alt: "spectrum [Fin 1, Fin (- 1)] default_options = Some (Inr result_alt)"
proof -
  have pb: "take (nat (2 div 2 + 1)) [Fin 0, Fin 0] = [Fin 0, Fin (0::real)]"
    by simp
  have ph: "or0 (nth_opt [Fin 0, Fin 0] 1) = Fin 0"
    by (simp add: or0_def nth_opt_def)
  show ?thesis
    unfolding spectrum_def default_options_def
    by (simp only: SpectrumOptions.simps option.case size_alt new_FFT_2 sum.case window_alt
        frame_alt win_alt applyWindow_alt forward_alt prod.case Let_def magnitude_alt phase_alt
        amplitude_alt frequencies_alt findPeak_alt simp_thms if_True pb SpectrumPeak.simps ph
        result_alt_def)
qed


theorem spectrum_peak_witness:
  "spectrum [Fin 1, Fin (- 1)] default_options = Some (Inr result_alt) \<and>
   (\<exists>k. 1 \<le> k \<and> k < length (amplitude result_alt) \<and> fgt (amplitude result_alt ! k) (Fin 0)) \<and>
   pk_index (peak result_alt) = 1 \<and>
   \<not> fgt (amplitude result_alt ! 1) (amplitude result_alt ! pk_index (peak result_alt)) \<and>
   pk_frequency (peak result_alt) = frequencies result_alt ! pk_index (peak result_alt) \<and>
   pk_amplitude (peak result_alt) = amplitude result_alt ! pk_index (peak result_alt) \<and>
   pk_phase (peak result_alt) = phase_bins result_alt ! pk_index (peak result_alt)"
proof -
  have pos: "\<exists>k. 1 \<le> k \<and> k < length (amplitude result_alt) \<and> fgt (amplitude result_alt ! k) (Fin 0)"
    by (rule exI[of _ 1]) (simp add: result_alt_def)
  have idx: "pk_index (peak result_alt) = 1"
    by (simp add: result_alt_def)
  show ?thesis
    using spectrum_peak [OF spectrum_alt] spectrum_alt pos idx by simp
qed

section \<open>The bit-reversal table\<close>

lemma shr1_nat: "x < 2 ^ 31 \<Longrightarrow> shr (int x) 1 = int (x div 2)"
  by (simp add: shr_def to_int32_small drop_bit_eq_div zdiv_int)

lemma shl1_nat: "2 * y < 2 ^ 31 \<Longrightarrow> shl (int y) 1 = int (2 * y)"
  by (simp add: shl_def to_int32_small push_bit_eq_mult)

lemma band1_nat: "x < 2 ^ 31 \<Longrightarrow> band (int x) 1 = int (x mod 2)"
  by (simp add: band_def to_int32_small and_one_eq zmod_int)

lemma bor_bit_nat: "2 * y < 2 ^ 31 \<Longrightarrow> bor (int (2 * y)) (int (x mod 2)) = int (2 * y + x mod 2)"
proof -
  assume a: "2 * y < 2 ^ 31"
  have "x mod 2 = 0 \<or> x mod 2 = 1" by auto
  then show ?thesis
  proof
    assume "x mod 2 = 0"
    then show ?thesis using a by (simp add: bor_def to_int32_small)
  next
    assume "x mod 2 = 1"
    then show ?thesis using a by (simp add: bor_def to_int32_small or_one_eq)
  qed
qed

lemma rev_loop_brev:
  "x < 2 ^ 31 \<Longrightarrow> (y + 1) * 2 ^ b \<le> 2 ^ 31 \<Longrightarrow> rev_loop b (int x) (int y) = int (brev b x y)"
proof (induction b arbitrary: x y)
  case 0
  then show ?case by simp
next
  case (Suc b)
  have y2: "2 * y < 2 ^ 31"
  proof -
    have "1 \<le> (2::nat) ^ b" by simp
    then have "(y + 1) * 1 \<le> (y + 1) * 2 ^ b" by (rule mult_le_mono2)
    then have "2 * y < (y + 1) * 2 ^ Suc b" by simp
    with Suc.prems(2) show ?thesis by simp
  qed
  have x2: "x div 2 < 2 ^ 31" using Suc.prems(1) by simp
  have "(2 * y + x mod 2 + 1) * 2 ^ b \<le> (y + 1) * 2 ^ Suc b"
  proof -
    have "2 * y + x mod 2 + 1 \<le> 2 * (y + 1)" by simp
    then have "(2 * y + x mod 2 + 1) * 2 ^ b \<le> (2 * (y + 1)) * 2 ^ b"
      by (rule mult_le_mono1)
    then show ?thesis by (simp add: algebra_simps)
  qed
  with Suc.prems(2) have inv: "(2 * y + x mod 2 + 1) * 2 ^ b \<le> 2 ^ 31" by simp
  have "rev_loop (Suc b) (int x) (int y) = rev_loop b (int (x div 2)) (int (2 * y + x mod 2))"
    using Suc.prems(1) y2 by (simp only: rev_loop.simps shr1_nat shl1_nat band1_nat bor_bit_nat)
  also have "\<dots> = int (brev b (x div 2) (2 * y + x mod 2))"
    using x2 inv by (rule Suc.IH)
  finally show ?case by simp
qed


lemma brev_acc: "brev b x y = y * 2 ^ b + brev b x 0"
proof (induction b arbitrary: x y)
  case 0
  then show ?case by simp
next
  case (Suc b)
  have "brev (Suc b) x y = (2 * y + x mod 2) * 2 ^ b + brev b (x div 2) 0"
    using Suc.IH[of "x div 2" "2 * y + x mod 2"] by simp
  moreover have "brev (Suc b) x 0 = (x mod 2) * 2 ^ b + brev b (x div 2) 0"
    using Suc.IH[of "x div 2" "x mod 2"] by simp
  ultimately show ?case by (simp add: algebra_simps)
qed

lemma brev_Suc: "brev (Suc b) x 0 = (x mod 2) * 2 ^ b + brev b (x div 2) 0"
  using brev_acc[of b "x div 2" "x mod 2"] by simp

lemma brev_less: "brev b x 0 < 2 ^ b"
proof (induction b arbitrary: x)
  case 0
  then show ?case by simp
next
  case (Suc b)
  have "x mod 2 \<le> 1" by simp
  then have a: "(x mod 2) * 2 ^ b \<le> 1 * 2 ^ b" by (rule mult_le_mono1)
  have r: "brev b (x div 2) 0 < 2 ^ b" by (rule Suc.IH)
  show ?case unfolding brev_Suc power_Suc using a r by linarith
qed

lemma brev_inj:
  "x < 2 ^ b \<Longrightarrow> x' < 2 ^ b \<Longrightarrow> brev b x 0 = brev b x' 0 \<Longrightarrow> x = x'"
proof (induction b arbitrary: x x')
  case 0
  then show ?case by simp
next
  case (Suc b)
  let ?r = "brev b (x div 2) 0" and ?r' = "brev b (x' div 2) 0"
  have eq: "(x mod 2) * 2 ^ b + ?r = (x' mod 2) * 2 ^ b + ?r'"
    using Suc.prems(3) by (simp only: brev_Suc)
  have r: "?r < 2 ^ b" "?r' < 2 ^ b" by (rule brev_less)+
  have d: "((x mod 2) * 2 ^ b + ?r) div 2 ^ b = x mod 2"
    and d': "((x' mod 2) * 2 ^ b + ?r') div 2 ^ b = x' mod 2"
    using r by simp_all
  have e: "((x mod 2) * 2 ^ b + ?r) mod 2 ^ b = ?r"
    and e': "((x' mod 2) * 2 ^ b + ?r') mod 2 ^ b = ?r'"
    using r by simp_all
  have m: "x mod 2 = x' mod 2"
    using d d' eq by simp
  have rr: "?r = ?r'"
    using e e' eq by simp
  have "x div 2 < 2 ^ b" "x' div 2 < 2 ^ b" using Suc.prems(1,2) by auto
  then have "x div 2 = x' div 2" using rr by (rule Suc.IH)
  with m show ?case by (metis div_mult_mod_eq)
qed

lemma brev_perm:
  "distinct (map (\<lambda>i. brev b i 0) [0..<2 ^ b]) \<and> set (map (\<lambda>i. brev b i 0) [0..<2 ^ b]) = {0..<2 ^ b}"
proof -
  have inj: "inj_on (\<lambda>i. brev b i 0) {0..<2 ^ b}"
    by (rule inj_onI) (auto dest: brev_inj)
  then have d: "distinct (map (\<lambda>i. brev b i 0) [0..<2 ^ b])"
    by (simp add: distinct_map)
  have sub: "(\<lambda>i. brev b i 0) ` {0..<2 ^ b} \<subseteq> {0..<2 ^ b}"
    using brev_less by auto
  have "card ((\<lambda>i. brev b i 0) ` {0..<2 ^ b}) = card {0..<(2::nat) ^ b}"
    using inj by (rule card_image)
  with sub have "(\<lambda>i. brev b i 0) ` {0..<2 ^ b} = {0..<2 ^ b}"
    by (intro card_subset_eq) simp_all
  with d show ?thesis by simp
qed

lemma round_log2_pow: "round_log2 (2 ^ L) = L"
proof -
  have "floorlog 2 1 = 1" by (simp add: floorlog_def)
  then have f: "floorlog 2 (2 ^ L) = L + 1"
    using floorlog_power[of 1 2 L] by simp
  have n: "nat ((2::int) ^ L) = 2 ^ L" by (simp add: nat_power_eq)
  have e: "(2::int) ^ (2 * L + 1) = 2 * (2 ^ L * 2 ^ L)"
    by (simp add: power_even_eq power2_eq_square)
  have "0 < (2::int) ^ L * 2 ^ L" by simp
  then have "\<not> (2::int) ^ (2 * L + 1) \<le> 2 ^ L * 2 ^ L"
    unfolding e by linarith
  then show ?thesis
    by (simp add: round_log2_def n f Let_def)
qed

lemma buildBitReverse_pow:
  assumes "L \<le> 30"
  shows "buildBitReverse (2 ^ L) = map (\<lambda>i. brev L i 0) [0..<2 ^ L]"
proof -
  have p: "(2::nat) ^ L \<le> 2 ^ 30" using assms by (intro power_increasing) simp_all
  have "nat (rev_loop L (int i) 0 mod 2 ^ 32) = brev L i 0" if "i < 2 ^ L" for i
  proof -
    have a: "rev_loop L (int i) 0 = int (brev L i 0)"
      using rev_loop_brev[of i 0 L] that p by simp
    have "brev L i 0 < 2 ^ 32"
      using brev_less[of L i] p by simp
    then have "int (brev L i 0) < int (2 ^ 32)" by (simp only: of_nat_less_iff)
    then have "int (brev L i 0) < 2 ^ 32" by simp
    then have "int (brev L i 0) mod 2 ^ 32 = int (brev L i 0)"
      by (intro mod_pos_pos_trivial) simp_all
    then show ?thesis by (simp only: a nat_int)
  qed
  then show ?thesis
    by (simp add: buildBitReverse_def round_log2_pow nat_power_eq Let_def)
qed

section \<open>The twiddle tables and the sizes the constructor accepts\<close>

lemma to_int32_pow: "s \<le> 30 \<Longrightarrow> to_int32 (2 ^ s) = 2 ^ s \<and> to_int32 (2 ^ s - 1) = 2 ^ s - 1"
proof -
  assume s: "s \<le> 30"
  define t :: int where "t = 2 ^ s"
  have "t \<le> 2 ^ 30" unfolding t_def using s by (intro power_increasing) simp_all
  then have a: "t \<le> 1073741824" by simp
  have b: "1 \<le> t" unfolding t_def by simp
  have "to_int32 t = t"
    by (rule to_int32_small) (use a b in simp_all)
  moreover have "to_int32 (t - 1) = t - 1"
    by (rule to_int32_small) (use a b in simp_all)
  ultimately show ?thesis unfolding t_def by simp
qed

lemma shl_one: "s \<le> 30 \<Longrightarrow> shl 1 (int s) = 2 ^ s"
proof -
  assume s: "s \<le> 30"
  then have "to_int32 (2 ^ s) = 2 ^ s" by (simp add: to_int32_pow)
  moreover have "nat (int s mod 32) = s" using s by simp
  ultimately show ?thesis
    by (simp add: shl_def to_int32_small push_bit_eq_mult)
qed

lemma shr_pow: "1 \<le> s \<Longrightarrow> s \<le> 30 \<Longrightarrow> shr (2 ^ s) 1 = 2 ^ (s - 1)"
proof -
  assume s: "1 \<le> s" "s \<le> 30"
  then have "to_int32 (2 ^ s) = 2 ^ s" by (simp add: to_int32_pow)
  moreover obtain t where "s = Suc t" using s(1) by (cases s) simp_all
  ultimately show ?thesis
    by (simp add: shr_def drop_bit_eq_div)
qed

lemma twiddle_angle_pow: "twiddle_angle k (2 ^ s) = Fin (- 2 * pi * real k / 2 ^ s)"
  by (simp add: twiddle_angle_def of_i_def)

lemma twiddle_table_stage:
  assumes "1 \<le> s" "s \<le> 30"
  shows "twiddle_table (int s) = Inr (stage_table s)"
proof -
  have "(0::int) \<le> 2 ^ (s - 1)" by simp
  then show ?thesis
    using assms
    by (simp add: twiddle_table_def shl_one shr_pow stage_table_def twiddle_angle_pow
        nat_power_eq Let_def not_less)
qed

lemma twiddle_stages_ok:
  "(\<And>s. s \<in> set ss \<Longrightarrow> 1 \<le> s \<and> s \<le> 30) \<Longrightarrow> twiddle_stages ss = Inr (map stage_table ss)"
  by (induction ss) (simp_all add: twiddle_table_stage)

lemma buildTwiddles_pow:
  "L \<le> 30 \<Longrightarrow> buildTwiddles (2 ^ L) = Inr (map stage_table [1..<Suc L])"
  unfolding buildTwiddles_def round_log2_pow
  by (rule twiddle_stages_ok) auto

lemma pow2_and_pred: "(2::int) ^ L AND (2 ^ L - 1) = 0"
proof -
  have "(2::int) ^ L AND mask L = take_bit L (2 ^ L)"
    by (simp add: take_bit_eq_mask)
  then show ?thesis
    by (simp add: mask_eq_exp_minus_1 take_bit_eq_mod)
qed

lemma isPowerOfTwo_pow: "L \<le> 30 \<Longrightarrow> isPowerOfTwo (2 ^ L)"
proof -
  assume "L \<le> 30"
  then have "to_int32 (2 ^ L) = 2 ^ L" "to_int32 (2 ^ L - 1) = 2 ^ L - 1"
    by (simp_all add: to_int32_pow)
  then show ?thesis
    by (simp add: isPowerOfTwo_def band_def pow2_and_pred)
qed

lemma new_Radix2Fft_pow:
  "L \<le> 30 \<Longrightarrow> new_Radix2Fft (2 ^ L) =
     Inr \<lparr>psize = 2 ^ L, bitReverse = map (\<lambda>i. brev L i 0) [0..<2 ^ L],
          twiddles = map stage_table [1..<Suc L]\<rparr>"
  by (simp add: new_Radix2Fft_def isPowerOfTwo_pow buildTwiddles_pow buildBitReverse_pow)

text \<open>Sizes for which the constructor returns.\<close>

lemma and_pred_pow2: "0 < n \<Longrightarrow> n AND (n - 1) = 0 \<Longrightarrow> \<exists>L. n = (2::int) ^ L"
proof (induction "nat n" arbitrary: n rule: less_induct)
  case less
  show ?case
  proof (cases "even n")
    case True
    then obtain k where k: "n = 2 * k" by (elim evenE)
    with less.prems(1) have kp: "0 < k" by simp
    have "(n - 1) div 2 = k - 1" using k by simp
    then have "n AND (n - 1) = 2 * (k AND (k - 1))"
      using k by (subst and_int_rec) simp
    with less.prems(2) have "k AND (k - 1) = 0" by simp
    moreover have "nat k < nat n" using k kp by simp
    ultimately obtain L where "k = 2 ^ L" using less.hyps[of k] kp by blast
    then have "n = 2 ^ Suc L" using k by simp
    then show ?thesis by blast
  next
    case False
    then obtain k where k: "n = 2 * k + 1" by (elim oddE)
    have "n AND (n - 1) = 2 * (k AND k)"
      using k by (subst and_int_rec) simp
    with less.prems(2) have "k = 0" by simp
    then have "n = 2 ^ 0" using k by simp
    then show ?thesis by blast
  qed
qed

lemma twiddle_table_31: "twiddle_table 31 = Inl RangeError"
  by (simp add: twiddle_table_def shl_def shr_def to_int32_def drop_bit_eq_div push_bit_eq_mult)

lemma twiddle_stages_Inr:
  "twiddle_stages ss = Inr ts \<Longrightarrow> s \<in> set ss \<Longrightarrow> \<exists>t. twiddle_table (int s) = Inr t"
  by (induction ss arbitrary: ts) (auto split: sum.splits)

lemma buildTwiddles_bound:
  assumes "buildTwiddles sz = Inr tw"
  shows "round_log2 sz \<le> 30"
proof (rule ccontr)
  assume "\<not> round_log2 sz \<le> 30"
  then have "31 \<in> set [1..<Suc (round_log2 sz)]" by auto
  with assms obtain t where "twiddle_table (int 31) = Inr t"
    unfolding buildTwiddles_def by (blast dest: twiddle_stages_Inr)
  then show False by (simp add: twiddle_table_31)
qed

lemma round_log2_bound:
  assumes "0 < sz" "round_log2 sz \<le> 30"
  shows "sz < 2 ^ 31"
proof -
  let ?f = "floorlog 2 (nat sz)"
  have "nat sz < 2 ^ ?f"
    using floorlog_bounds[of "nat sz" 2] assms(1) by simp
  moreover have "?f - 1 \<le> round_log2 sz"
    by (simp add: round_log2_def Let_def)
  then have "?f \<le> 31" using assms(2) by simp
  then have "(2::nat) ^ ?f \<le> 2 ^ 31" by (intro power_increasing) simp_all
  ultimately have "nat sz < 2 ^ 31" by (rule less_le_trans)
  then show ?thesis by simp
qed

lemma constructed_size:
  assumes "new_Radix2Fft sz = Inr P"
  shows "\<exists>L. L \<le> 30 \<and> sz = 2 ^ L"
proof -
  from assms obtain tw where ip: "isPowerOfTwo sz" and tw: "buildTwiddles sz = Inr tw"
    by (auto simp: new_Radix2Fft_def split: if_splits sum.splits)
  have pos: "0 < sz" using ip by (simp add: isPowerOfTwo_def)
  have lt: "sz < 2 ^ 31"
    using pos buildTwiddles_bound[OF tw] by (rule round_log2_bound)
  have "to_int32 sz = sz" "to_int32 (sz - 1) = sz - 1"
    using pos lt by (simp_all add: to_int32_small)
  with ip have "sz AND (sz - 1) = 0" by (simp add: isPowerOfTwo_def band_def)
  with pos obtain L where L: "sz = 2 ^ L" by (blast dest: and_pred_pow2)
  with lt have "(2::int) ^ L < 2 ^ 31" by simp
  then have "L < 31" by (simp only: power_strict_increasing_iff) 
  with L show ?thesis by auto
qed

lemma stage_table_nth:
  "1 \<le> s \<Longrightarrow> s \<le> L \<Longrightarrow> map stage_table [1..<Suc L] ! (s - 1) = stage_table s"
proof -
  assume s: "1 \<le> s" "s \<le> L"
  then have "s - 1 < length [1..<Suc L]" by simp
  then have "map stage_table [1..<Suc L] ! (s - 1) = stage_table ([1..<Suc L] ! (s - 1))"
    by (rule nth_map)
  also have "[1..<Suc L] ! (s - 1) = 1 + (s - 1)"
    using s by (intro nth_upt) simp
  finally show ?thesis using s by simp
qed

text \<open>
  C7. Whenever the constructor returns a plan for \<open>sz\<close>: \<open>sz\<close> is the power of two \<open>2 ^ L\<close>
  with \<open>L = round_log2 sz\<close>; the bit-reversal table has \<open>sz\<close> entries, all distinct, and
  they are exactly the numbers below \<open>sz\<close>; there are \<open>L\<close> twiddle tables, and the table of
  stage \<open>s\<close> (from 1 to \<open>L\<close>) holds \<open>cos (-2 pi k / 2^s)\<close> and \<open>sin (-2 pi k / 2^s)\<close> for
  \<open>k\<close> below \<open>2^(s-1)\<close>. (The constructor returns for every \<open>2 ^ L\<close> with \<open>L \<le> 30\<close>,
  lemma \<open>new_Radix2Fft_pow\<close>, and raises a RangeError at \<open>2 ^ 31\<close>, lemma
  \<open>new_Radix2Fft_2_31\<close>.)
\<close>

theorem plan_invariants:
  assumes "new_Radix2Fft sz = Inr P"
  shows "sz = 2 ^ round_log2 sz \<and> psize P = sz \<and>
         length (bitReverse P) = nat sz \<and> distinct (bitReverse P) \<and>
         set (bitReverse P) = {0..<nat sz} \<and>
         length (twiddles P) = round_log2 sz \<and>
         (\<forall>s. 1 \<le> s \<and> s \<le> round_log2 sz \<longrightarrow>
            cos_t (twiddles P ! (s - 1)) =
              map (\<lambda>k. Fin (cos (- 2 * pi * real k / 2 ^ s))) [0..<2 ^ (s - 1)] \<and>
            sin_t (twiddles P ! (s - 1)) =
              map (\<lambda>k. Fin (sin (- 2 * pi * real k / 2 ^ s))) [0..<2 ^ (s - 1)])"
proof -
  from assms obtain L where L: "L \<le> 30" "sz = 2 ^ L"
    by (blast dest: constructed_size)
  have P: "P = \<lparr>psize = 2 ^ L, bitReverse = map (\<lambda>i. brev L i 0) [0..<2 ^ L],
          twiddles = map stage_table [1..<Suc L]\<rparr>"
    using assms new_Radix2Fft_pow[OF L(1)] L(2) by simp
  have r: "round_log2 sz = L" by (simp add: L(2) round_log2_pow)
  have n: "nat sz = 2 ^ L" by (simp add: L(2) nat_power_eq)
  have tabs: "cos_t (twiddles P ! (s - 1)) =
              map (\<lambda>k. Fin (cos (- 2 * pi * real k / 2 ^ s))) [0..<2 ^ (s - 1)] \<and>
            sin_t (twiddles P ! (s - 1)) =
              map (\<lambda>k. Fin (sin (- 2 * pi * real k / 2 ^ s))) [0..<2 ^ (s - 1)]"
    if "1 \<le> s" "s \<le> L" for s
    using stage_table_nth[OF that] by (simp add: P stage_table_def)
  have perm: "distinct (bitReverse P)" "set (bitReverse P) = {0..<2 ^ L}"
    using brev_perm[of L] by (simp_all add: P)
  show ?thesis
    unfolding r n using L(2) perm tabs by (simp add: P)
qed

lemma new_plan4: "new_Radix2Fft 4 = Inr plan4"
proof -
  have b: "map (\<lambda>i. brev 2 i 0) [0..<2 ^ 2] = [0, 2, 1, 3]"
    by code_simp
  have a: "- (2 * pi) / 4 = - (pi / 2)" by simp
  have t: "map stage_table [1..<Suc 2] =
      [\<lparr>cos_t = [Fin 1], sin_t = [Fin 0]\<rparr>, \<lparr>cos_t = [Fin 1, Fin 0], sin_t = [Fin 0, Fin (- 1)]\<rparr>]"
    by (simp add: stage_table_def upt_rec numeral_2_eq_2 a)
  have "new_Radix2Fft (2 ^ 2) =
     Inr \<lparr>psize = 2 ^ 2, bitReverse = map (\<lambda>i. brev 2 i 0) [0..<2 ^ 2],
          twiddles = map stage_table [1..<Suc 2]\<rparr>"
    by (rule new_Radix2Fft_pow) simp
  then have "new_Radix2Fft (2 ^ 2) = Inr plan4"
    by (simp only: b t plan4_def) simp
  then show ?thesis by simp
qed

theorem plan_invariants_witness:
  "new_Radix2Fft 4 = Inr plan4 \<and> (4::int) = 2 ^ round_log2 4 \<and> psize plan4 = 4 \<and>
   length (bitReverse plan4) = nat 4 \<and> distinct (bitReverse plan4) \<and>
   set (bitReverse plan4) = {0..<nat 4} \<and> length (twiddles plan4) = round_log2 4 \<and>
   cos_t (twiddles plan4 ! 1) = map (\<lambda>k. Fin (cos (- 2 * pi * real k / 2 ^ 2))) [0..<2 ^ 1]"
proof -
  have r: "round_log2 4 = 2" using round_log2_pow[of 2] by simp
  note inv = plan_invariants [OF new_plan4]
  from inv have "\<forall>s. 1 \<le> s \<and> s \<le> round_log2 4 \<longrightarrow>
            cos_t (twiddles plan4 ! (s - 1)) =
              map (\<lambda>k. Fin (cos (- 2 * pi * real k / 2 ^ s))) [0..<2 ^ (s - 1)] \<and>
            sin_t (twiddles plan4 ! (s - 1)) =
              map (\<lambda>k. Fin (sin (- 2 * pi * real k / 2 ^ s))) [0..<2 ^ (s - 1)]"
    by blast
  from this[THEN spec, of 2] have c: "cos_t (twiddles plan4 ! 1) =
      map (\<lambda>k. Fin (cos (- 2 * pi * real k / 2 ^ 2))) [0..<2 ^ 1]"
    by (simp add: r)
  show ?thesis
    using inv new_plan4 c by (simp add: r)
qed

lemma twiddle_stages_fail:
  "(\<And>s. s \<in> set ss \<Longrightarrow> 1 \<le> s \<and> s \<le> 30) \<Longrightarrow> twiddle_stages (ss @ [31]) = Inl RangeError"
proof (induction ss)
  case Nil
  then show ?case using twiddle_table_31 by simp
next
  case (Cons a ss)
  then show ?case by (simp add: twiddle_table_stage)
qed

lemma new_Radix2Fft_2_31: "new_Radix2Fft (2 ^ 31) = Inl RangeError"
proof -
  have "[1..<Suc 31] = [1..<31] @ [31]" by (simp add: upt_rec)
  then have "twiddle_stages [1..<Suc 31] = Inl RangeError"
    using twiddle_stages_fail[of "[1..<31]"] by simp
  then have "buildTwiddles (2 ^ 31) = Inl RangeError"
    unfolding buildTwiddles_def round_log2_pow .
  moreover have "isPowerOfTwo (2 ^ 31)"
    by (simp add: isPowerOfTwo_def band_def to_int32_def)
  ultimately show ?thesis
    by (simp add: new_Radix2Fft_def)
qed

section \<open>The output buffer of the transform\<close>

lemma block_loop_rel:
  assumes m: "0 < m"
    and step: "\<And>k h g. R h g \<Longrightarrow> R (body k h) (body' k g)"
    and "R h g"
  shows "\<exists>h' g'. block_loop sz m body k h = Some h' \<and> block_loop sz m body' k g = Some g' \<and> R h' g'"
  using assms(3)
proof (induction "nat (sz - k)" arbitrary: k h g rule: less_induct)
  case less
  show ?case
  proof (cases "k < sz")
    case True
    have "nat (sz - (k + m)) < nat (sz - k)" using True m by simp
    moreover have "R (body k h) (body' k g)" using less.prems by (rule step)
    ultimately obtain h' g' where
      "block_loop sz m body (k + m) (body k h) = Some h'"
      "block_loop sz m body' (k + m) (body' k g) = Some g'" "R h' g'"
      using less.hyps[of "k + m" "body k h" "body' k g"] by blast
    then show ?thesis
      using True by (subst block_loop.simps, subst (2) block_loop.simps) simp
  next
    case False
    then show ?thesis
      using less.prems by (subst block_loop.simps, subst (2) block_loop.simps) simp
  qed
qed

lemma fold_rel:
  assumes "\<And>i h g. R h g \<Longrightarrow> R (f i h) (f' i g)" and "R h g"
  shows "R (fold f is h) (fold f' is g)"
  using assms(2) by (induction "is" arbitrary: h g) (simp_all add: assms(1))

lemma butterfly_rel:
  assumes "oR \<noteq> oI" "pR \<noteq> pI" "same_at oR oI pR pI h g"
  shows "same_at oR oI pR pI (butterfly t s oR oI half k j h) (butterfly t s pR pI half k j g)"
  using assms
  by (simp add: same_at_def butterfly_def Let_def el_def rd_def arrays_wr)

lemma inverse_scale_step_rel:
  assumes "oR \<noteq> oI" "pR \<noteq> pI" "same_at oR oI pR pI h g"
  shows "same_at oR oI pR pI (inverse_scale_step sc oR oI i h) (inverse_scale_step sc pR pI i g)"
  using assms
  by (simp add: same_at_def inverse_scale_step_def Let_def el_def rd_def arrays_wr)

lemma stage_pass_rel:
  assumes "stage < 30" and R: "\<And>t s half k j h g. R h g \<Longrightarrow>
      R (butterfly t s oR oI half k j h) (butterfly t s pR pI half k j g)"
    and "R h g"
  shows "\<exists>h' g'. stage_pass sz isInv oR oI stage t h = Some h' \<and>
                 stage_pass sz isInv pR pI stage t g = Some g' \<and> R h' g'"
proof -
  have "shl 1 (int stage + 1) = 2 ^ Suc stage"
    using shl_one[of "Suc stage"] assms(1) by (simp add: add.commute)
  then have m: "0 < shl 1 (int stage + 1)" by simp
  have b: "R (fold (butterfly t s oR oI half k) js h) (fold (butterfly t s pR pI half k) js g)"
    if "R h g" for s half k js h g
    using that by (rule fold_rel[where R = R, rotated]) (rule R)
  show ?thesis
    unfolding stage_pass_def Let_def
    by (rule block_loop_rel[where R = R, OF m _ assms(3)]) (rule b)
qed

lemma stage_loop_rel:
  assumes "stage + length ts \<le> 30" and R: "\<And>t s half k j h g. R h g \<Longrightarrow>
      R (butterfly t s oR oI half k j h) (butterfly t s pR pI half k j g)"
    and "R h g"
  shows "\<exists>h' g'. stage_loop sz isInv oR oI stage ts h = Some h' \<and>
                 stage_loop sz isInv pR pI stage ts g = Some g' \<and> R h' g'"
  using assms(1,3)
proof (induction ts arbitrary: stage h g)
  case Nil
  then show ?case by simp
next
  case (Cons t ts)
  have "stage < 30" using Cons.prems(1) by simp
  from stage_pass_rel[where R = R and oR = oR and oI = oI and pR = pR and pI = pI,
      OF this R Cons.prems(2), of sz isInv t]
  obtain h1 g1 where 1: "stage_pass sz isInv oR oI stage t h = Some h1"
    "stage_pass sz isInv pR pI stage t g = Some g1" "R h1 g1" by blast
  have "Suc stage + length ts \<le> 30" using Cons.prems(1) by simp
  from Cons.IH[OF this 1(3)] show ?case using 1 by simp
qed

lemma scatter_fold:
  assumes d: "distinct (bitReverse P)" and lr: "length (bitReverse P) = N"
    and ne: "oR \<noteq> oI" "inR \<noteq> oR" "inR \<noteq> oI" "inI \<noteq> Some oR \<and> inI \<noteq> Some oI"
    and k: "k \<le> N"
  shows "(\<forall>i<k. arrays (fold (scatter_step P inR inI oR oI) [0..<k] h) oR ! (bitReverse P ! i)
              = or0 (rd h inR i) \<or> length (arrays h oR) \<le> bitReverse P ! i) \<and>
         (\<forall>i<k. arrays (fold (scatter_step P inR inI oR oI) [0..<k] h) oI ! (bitReverse P ! i)
              = imag_in h inI i \<or> length (arrays h oI) \<le> bitReverse P ! i) \<and>
         (\<forall>r. r \<noteq> oR \<and> r \<noteq> oI \<longrightarrow>
              arrays (fold (scatter_step P inR inI oR oI) [0..<k] h) r = arrays h r)"
  using k
proof (induction k)
  case 0
  then show ?case by simp
next
  case (Suc k)
  let ?hk = "fold (scatter_step P inR inI oR oI) [0..<k] h"
  let ?j = "bitReverse P ! k"
  from Suc have IH: "\<forall>i<k. arrays ?hk oR ! (bitReverse P ! i) = or0 (rd h inR i) \<or>
        length (arrays h oR) \<le> bitReverse P ! i"
      "\<forall>i<k. arrays ?hk oI ! (bitReverse P ! i) = imag_in h inI i \<or>
        length (arrays h oI) \<le> bitReverse P ! i"
      "\<forall>r. r \<noteq> oR \<and> r \<noteq> oI \<longrightarrow> arrays ?hk r = arrays h r"
    by simp_all
  have kN: "k < N" using Suc.prems by simp
  have lens: "length (arrays ?hk r) = length (arrays h r)" for r
    by (simp add: fold_step_length scatter_step_length)
  have inR: "rd ?hk inR k = rd h inR k"
    using IH(3) ne by (simp add: rd_def)
  have inI: "imag_in (wr ?hk oR ?j v) inI k = imag_in h inI k" for v
    using IH(3) ne(4) by (cases inI) (auto simp: imag_in_def rd_def arrays_wr)
  have step: "fold (scatter_step P inR inI oR oI) [0..<Suc k] h =
      wr (wr ?hk oR ?j (or0 (rd h inR k))) oI ?j (imag_in h inI k)"
    using kN lr inI[of "or0 (rd h inR k)"]
    by (simp add: scatter_step_def nth_opt_def Let_def inR imag_in_def)
  have other: "?j \<noteq> bitReverse P ! i" if "i < k" for i
    using that kN d lr by (simp add: nth_eq_iff_index_eq)
  show ?case
    unfolding step
    using IH ne(1) other lens[of oR] lens[of oI]
    by (auto simp: arrays_wr less_Suc_eq not_le)
qed

lemma constructed_plan:
  assumes "new_Radix2Fft sz = Inr P"
  shows "psize P = sz \<and> 0 < sz \<and> distinct (bitReverse P) \<and> length (bitReverse P) = nat sz \<and>
         set (bitReverse P) = {0..<nat sz} \<and> length (twiddles P) \<le> 30"
proof -
  from assms obtain L where L: "L \<le> 30" "sz = 2 ^ L"
    by (blast dest: constructed_size)
  have P: "P = \<lparr>psize = 2 ^ L, bitReverse = map (\<lambda>i. brev L i 0) [0..<2 ^ L],
          twiddles = map stage_table [1..<Suc L]\<rparr>"
    using assms new_Radix2Fft_pow[OF L(1)] L(2) by simp
  have n: "nat sz = 2 ^ L" by (simp add: L(2) nat_power_eq)
  show ?thesis
    unfolding n using brev_perm[of L] L by (simp add: P)
qed

lemma scatter_same:
  assumes perm: "distinct (bitReverse P)" "length (bitReverse P) = N" "set (bitReverse P) = {0..<N}"
    and hs: "oR \<noteq> oI" "inR \<noteq> oR" "inR \<noteq> oI" "inI \<noteq> Some oR \<and> inI \<noteq> Some oI"
      "length (arrays h oR) = N" "length (arrays h oI) = N"
    and gs: "pR \<noteq> pI" "inR \<noteq> pR" "inR \<noteq> pI" "inI \<noteq> Some pR \<and> inI \<noteq> Some pI"
      "length (arrays g pR) = N" "length (arrays g pI) = N"
    and same: "arrays g inR = arrays h inR" "\<forall>r. inI = Some r \<longrightarrow> arrays g r = arrays h r"
  shows "same_at oR oI pR pI (fold (scatter_step P inR inI oR oI) [0..<N] h)
           (fold (scatter_step P inR inI pR pI) [0..<N] g)"
proof -
  let ?h = "fold (scatter_step P inR inI oR oI) [0..<N] h"
  let ?g = "fold (scatter_step P inR inI pR pI) [0..<N] g"
  note H = scatter_fold[where h = h, OF perm(1,2) hs(1-4) le_refl]
  note G = scatter_fold[where h = g, OF perm(1,2) gs(1-4) le_refl]
  have lens: "length (arrays ?h r) = length (arrays h r)" "length (arrays ?g r) = length (arrays g r)" for r
    by (simp_all add: fold_step_length scatter_step_length)
  have in_eq: "or0 (rd g inR i) = or0 (rd h inR i)" "imag_in g inI i = imag_in h inI i" for i
    using same by (auto simp: rd_def imag_in_def split: option.splits)
  have ex: "\<exists>i<N. bitReverse P ! i = j" if "j < N" for j
  proof -
    from that perm(3) have "j \<in> set (bitReverse P)" by simp
    then show ?thesis using perm(2) by (auto simp: in_set_conv_nth)
  qed
  have "arrays ?h oR = arrays ?g pR"
  proof (rule nth_equalityI)
    show "length (arrays ?h oR) = length (arrays ?g pR)" using lens hs(5) gs(5) by simp
  next
    fix j assume "j < length (arrays ?h oR)"
    then have "j < N" using lens hs(5) by simp
    then obtain i where i: "i < N" "bitReverse P ! i = j" using ex by blast
    have "arrays ?h oR ! j = or0 (rd h inR i)"
      using H i hs(5) \<open>j < N\<close> by auto
    moreover have "arrays ?g pR ! j = or0 (rd g inR i)"
      using G i gs(5) \<open>j < N\<close> by auto
    ultimately show "arrays ?h oR ! j = arrays ?g pR ! j" by (simp add: in_eq)
  qed
  moreover have "arrays ?h oI = arrays ?g pI"
  proof (rule nth_equalityI)
    show "length (arrays ?h oI) = length (arrays ?g pI)" using lens hs(6) gs(6) by simp
  next
    fix j assume "j < length (arrays ?h oI)"
    then have "j < N" using lens hs(6) by simp
    then obtain i where i: "i < N" "bitReverse P ! i = j" using ex by blast
    have "arrays ?h oI ! j = imag_in h inI i"
      using H i hs(6) \<open>j < N\<close> by auto
    moreover have "arrays ?g pI ! j = imag_in g inI i"
      using G i gs(6) \<open>j < N\<close> by auto
    ultimately show "arrays ?h oI ! j = arrays ?g pI ! j" by (simp add: in_eq)
  qed
  ultimately show ?thesis by (simp add: same_at_def)
qed

text \<open>The transform ends for every plan the constructor returns, whatever the buffer.\<close>

lemma transform_into_ends:
  assumes "length (twiddles P) \<le> 30"
  shows "\<exists>h'. transform_into P inR inI c isInv h = Some h'"
proof -
  let ?h1 = "fold (scatter_step P inR inI (real_arr c) (imag_arr c)) [0..<nat (psize P)] h"
  have "\<exists>h' g'. stage_loop (psize P) isInv (real_arr c) (imag_arr c) 0 (twiddles P) ?h1 = Some h' \<and>
      stage_loop (psize P) isInv (real_arr c) (imag_arr c) 0 (twiddles P) ?h1 = Some g' \<and> True"
    by (rule stage_loop_rel[where R = "\<lambda>h g. True"]) (use assms in simp_all)
  then show ?thesis
    by (auto simp: transform_into_def Let_def)
qed

lemma transform_into_same:
  assumes P: "length (twiddles P) \<le> 30" "distinct (bitReverse P)"
      "length (bitReverse P) = nat (psize P)" "set (bitReverse P) = {0..<nat (psize P)}"
    and hs: "real_arr c \<noteq> imag_arr c" "inR \<noteq> real_arr c" "inR \<noteq> imag_arr c"
      "inI \<noteq> Some (real_arr c) \<and> inI \<noteq> Some (imag_arr c)"
      "length (arrays h (real_arr c)) = nat (psize P)" "length (arrays h (imag_arr c)) = nat (psize P)"
    and gs: "real_arr d \<noteq> imag_arr d" "inR \<noteq> real_arr d" "inR \<noteq> imag_arr d"
      "inI \<noteq> Some (real_arr d) \<and> inI \<noteq> Some (imag_arr d)"
      "length (arrays g (real_arr d)) = nat (psize P)" "length (arrays g (imag_arr d)) = nat (psize P)"
    and same: "arrays g inR = arrays h inR" "\<forall>r. inI = Some r \<longrightarrow> arrays g r = arrays h r"
  shows "\<exists>h' g'. transform_into P inR inI c isInv h = Some h' \<and>
                 transform_into P inR inI d isInv g = Some g' \<and> contents h' c = contents g' d"
proof -
  let ?R = "same_at (real_arr c) (imag_arr c) (real_arr d) (imag_arr d)"
  let ?h1 = "fold (scatter_step P inR inI (real_arr c) (imag_arr c)) [0..<nat (psize P)] h"
  let ?g1 = "fold (scatter_step P inR inI (real_arr d) (imag_arr d)) [0..<nat (psize P)] g"
  have 1: "?R ?h1 ?g1"
    by (rule scatter_same[OF P(2,3,4) hs gs same])
  have bf: "?R (butterfly t s (real_arr c) (imag_arr c) half k j h)
               (butterfly t s (real_arr d) (imag_arr d) half k j g)" if "?R h g" for t s half k j h g
    using hs(1) gs(1) that by (rule butterfly_rel)
  obtain h2 g2 where 2:
    "stage_loop (psize P) isInv (real_arr c) (imag_arr c) 0 (twiddles P) ?h1 = Some h2"
    "stage_loop (psize P) isInv (real_arr d) (imag_arr d) 0 (twiddles P) ?g1 = Some g2" "?R h2 g2"
    using stage_loop_rel[where R = ?R and stage = 0 and ts = "twiddles P" and h = ?h1 and g = ?g1
        and oR = "real_arr c" and oI = "imag_arr c" and pR = "real_arr d" and pI = "imag_arr d"
        and sz = "psize P" and isInv = isInv] P(1) bf 1
    by auto
  have 3: "?R (fold (inverse_scale_step sc (real_arr c) (imag_arr c)) js h2)
              (fold (inverse_scale_step sc (real_arr d) (imag_arr d)) js g2)" for sc js
    by (rule fold_rel[where R = ?R, rotated, OF 2(3)]) (rule inverse_scale_step_rel[OF hs(1) gs(1)])
  show ?thesis
    using 2 3 by (auto simp: transform_into_def Let_def same_at_def contents_def)
qed

lemma transform_bad_input:
  "\<not> inputs_ok P inR inI h \<Longrightarrow> transform P inR inI out isInv h = Some (Inl InvalidLength, h)"
  by (auto simp: inputs_ok_def transform_def split: option.splits)

lemma transform_returns_out:
  assumes "length (twiddles P) \<le> 30" "inputs_ok P inR inI h"
  shows "\<exists>h'. transform P inR inI (Some c) isInv h = Some (Inr c, h')"
proof -
  obtain h' where "transform_into P inR inI c isInv h = Some h'"
    using transform_into_ends[OF assms(1)] by blast
  then show ?thesis
    using assms(2) by (auto simp: inputs_ok_def transform_def split: option.splits)
qed

lemma transform_overwrites:
  assumes P: "length (twiddles P) \<le> 30" "distinct (bitReverse P)"
      "length (bitReverse P) = nat (psize P)" "set (bitReverse P) = {0..<nat (psize P)}"
    and ok: "inputs_ok P inR inI h" "buffer_ok h (nat (psize P)) c" "apart inR inI c h"
  shows "\<exists>h' X g'. transform P inR inI (Some c) isInv h = Some (Inr c, h') \<and>
           transform P inR inI None isInv h = Some (Inr X, g') \<and> contents h' c = contents g' X"
proof -
  let ?d = "\<lparr>real_arr = fresh h, imag_arr = Suc (fresh h)\<rparr>"
  let ?g = "h\<lparr>arrays := (arrays h)(fresh h := replicate (nat (psize P)) (Fin 0),
                               Suc (fresh h) := replicate (nat (psize P)) (Fin 0)),
        fresh := Suc (Suc (fresh h))\<rparr>"
  have cr: "createComplexArray (psize P) (Fin 0) h = (?d, ?g)"
    by (rule createComplexArray_eq)
  have hs: "real_arr c \<noteq> imag_arr c" "inR \<noteq> real_arr c" "inR \<noteq> imag_arr c"
      "inI \<noteq> Some (real_arr c) \<and> inI \<noteq> Some (imag_arr c)"
      "length (arrays h (real_arr c)) = nat (psize P)" "length (arrays h (imag_arr c)) = nat (psize P)"
    using ok(2,3) by (auto simp: buffer_ok_def apart_def split: option.splits)
  have gs: "real_arr ?d \<noteq> imag_arr ?d" "inR \<noteq> real_arr ?d" "inR \<noteq> imag_arr ?d"
      "inI \<noteq> Some (real_arr ?d) \<and> inI \<noteq> Some (imag_arr ?d)"
      "length (arrays ?g (real_arr ?d)) = nat (psize P)" "length (arrays ?g (imag_arr ?d)) = nat (psize P)"
    using ok(3) by (auto simp: apart_def split: option.splits)
  have same: "arrays ?g inR = arrays h inR" "\<forall>r. inI = Some r \<longrightarrow> arrays ?g r = arrays h r"
    using ok(3) by (auto simp: apart_def split: option.splits)
  obtain h' g' where "transform_into P inR inI c isInv h = Some h'"
    "transform_into P inR inI ?d isInv ?g = Some g'" "contents h' c = contents g' ?d"
    using transform_into_same[OF P hs gs same] by blast
  then show ?thesis
    using ok(1) by (auto simp: inputs_ok_def transform_def cr split: option.splits)
qed

text \<open>
  C6, as the code has it. For a plan the constructor returned, \<^verbatim>\<open>transform\<close> (hence
  \<^verbatim>\<open>forward\<close>, \<^verbatim>\<open>forwardComplex\<close> and \<^verbatim>\<open>inverse\<close>) raises InvalidLength exactly when an input
  array has not the plan's size, and then leaves the store as it was; otherwise it ends
  and returns the buffer it was given, whatever the length of that buffer, which is never
  checked. When the buffer given is well formed of the plan's size and the inputs are
  other arrays, it is overwritten: it ends holding exactly the values the call without
  an output buffer returns.
\<close>

theorem transform_output_buffer:
  assumes "new_Radix2Fft sz = Inr P"
  shows "(\<not> inputs_ok P inR inI h \<longrightarrow>
            transform P inR inI out isInv h = Some (Inl InvalidLength, h)) \<and>
         (inputs_ok P inR inI h \<longrightarrow>
            (\<exists>h'. transform P inR inI (Some c) isInv h = Some (Inr c, h'))) \<and>
         (inputs_ok P inR inI h \<and> buffer_ok h (nat sz) c \<and> apart inR inI c h \<longrightarrow>
            (\<exists>h' X g'. transform P inR inI (Some c) isInv h = Some (Inr c, h') \<and>
               transform P inR inI None isInv h = Some (Inr X, g') \<and>
               contents h' c = contents g' X))"
proof -
  note cp = constructed_plan[OF assms]
  from cp have P: "length (twiddles P) \<le> 30" "distinct (bitReverse P)"
      "length (bitReverse P) = nat (psize P)" "set (bitReverse P) = {0..<nat (psize P)}"
    and sz: "psize P = sz"
    by simp_all
  show ?thesis
    using transform_bad_input[of P inR inI h out isInv] transform_returns_out[OF P(1), of inR inI h c isInv]
      transform_overwrites[OF P, of inR inI h c isInv]
    unfolding sz by blast
qed

theorem transform_output_buffer_witness:
  "new_Radix2Fft 2 = Inr plan2 \<and> inputs_ok plan2 0 None heap_pair \<and>
   buffer_ok heap_pair (nat 2) buf_b \<and> apart 0 None buf_b heap_pair \<and>
   (\<exists>h'. transform plan2 0 None (Some buf_b) False heap_pair = Some (Inr buf_b, h')) \<and>
   (\<exists>h' X g'. transform plan2 0 None (Some buf_b) False heap_pair = Some (Inr buf_b, h') \<and>
       transform plan2 0 None None False heap_pair = Some (Inr X, g') \<and>
       contents h' buf_b = contents g' X) \<and>
   \<not> inputs_ok plan2 0 None heap_mismatch \<and>
   transform plan2 0 None (Some buf_b) False heap_mismatch = Some (Inl InvalidLength, heap_mismatch)"
proof -
  have a: "inputs_ok plan2 0 None heap_pair" "buffer_ok heap_pair (nat 2) buf_b"
    "apart 0 None buf_b heap_pair" "\<not> inputs_ok plan2 0 None heap_mismatch"
    by (simp_all add: inputs_ok_def buffer_ok_def apart_def plan2_def heap_pair_def buf_b_def
        heap_mismatch_def)
  show ?thesis
    using transform_output_buffer [OF new_plan2, of 0 None heap_pair "Some buf_b" False buf_b]
      transform_output_buffer [OF new_plan2, of 0 None heap_mismatch "Some buf_b" False buf_b]
      new_plan2 a
    by simp
qed

text \<open>
  The claim as stated fails: for the plan of size 2 and an output buffer whose arrays have
  length 1, \<^verbatim>\<open>forward\<close> raises nothing and returns the buffer, filled with NaN.
\<close>

lemma scatter_short:
  "fold (scatter_step plan2 0 None 2 3) [0..<2] heap_short = heap_c1"
  by (simp add: scatter_step_def plan2_def nth_opt_def rd_def wr_def or0_def heap_short_def
      heap_c1_def upt_rec numeral_2_eq_2 fun_eq_iff)

lemma butterfly_short:
  "butterfly \<lparr>cos_t = [Fin 1], sin_t = [Fin 0]\<rparr> (of_i 1) 2 3 1 0 0 heap_c1 = heap_nan"
  by (simp add: butterfly_def nth_opt_def el_def rd_def wr_def num_def fsub_def of_i_def
      heap_c1_def heap_nan_def Let_def fun_eq_iff)

lemma stage_short:
  "stage_pass 2 False 2 3 0 \<lparr>cos_t = [Fin 1], sin_t = [Fin 0]\<rparr> heap_c1 = Some heap_nan"
proof -
  have m: "shl 1 (int 0 + 1) = 2" by (simp add: shl_def to_int32_small)
  have h: "shr 2 1 = 1" by (simp add: shr_def to_int32_small)
  have u: "[0..<nat 1] = [0]" by simp
  show ?thesis
    unfolding stage_pass_def m h Let_def
    by (subst block_loop.simps, simp add: u butterfly_short, subst block_loop.simps, simp)
qed

theorem output_length_unchecked_counterexample:
  "int (length (arrays heap_short (real_arr buf_short))) \<noteq> psize plan2 \<and>
   int (length (arrays heap_short (imag_arr buf_short))) \<noteq> psize plan2 \<and>
   forward plan2 0 (Some buf_short) heap_short = Some (Inr buf_short, heap_nan)"
proof -
  have l: "int (length (arrays heap_short 0)) = psize plan2"
    "int (length (arrays heap_short (real_arr buf_short))) \<noteq> psize plan2"
    "int (length (arrays heap_short (imag_arr buf_short))) \<noteq> psize plan2"
    by (simp_all add: heap_short_def plan2_def buf_short_def)
  have p: "psize plan2 = 2" "twiddles plan2 = [\<lparr>cos_t = [Fin 1], sin_t = [Fin 0]\<rparr>]"
    by (simp_all add: plan2_def)
  have n: "[0..<nat 2] = [0..<2]" by simp
  have s: "real_arr buf_short = 2" "imag_arr buf_short = 3" by (simp_all add: buf_short_def)
  have "transform_into plan2 0 None buf_short False heap_short = Some heap_nan"
    unfolding transform_into_def p Let_def n s scatter_short
    by (simp add: stage_short)
  then have "forward plan2 0 (Some buf_short) heap_short = Some (Inr buf_short, heap_nan)"
    unfolding forward_def transform_def using l(1) by simp
  then show ?thesis using l(2,3) by simp
qed

end
